theory Spec2Isabelle
  imports Complex_Main "HOL-Library.Monad_Syntax"
begin

section \<open>The multi-valued restricted Boltzmann machine (Sources/Machine/rbm_multival.cc)\<close>

text \<open>
  Conventions of the embedding.
  \<^item> \<open>double\<close> is \<open>real\<close> and \<open>Complex\<close> is \<open>complex\<close>: arithmetic is exact, so an
    equality "within floating-point tolerance" is an equality here.
  \<^item> Sizes and indices (\<open>int\<close> and \<open>std::size_t\<close> in the source) are \<open>nat\<close>; products of
    dimensions are assumed to stay below the range of \<open>int\<close>.
  \<^item> An Eigen vector is a list, an Eigen matrix the list of its rows.
  \<^item> An index or a dimension that Eigen (or \<open>std::vector\<close>) would reject is the result
    \<open>None\<close>: every coefficient access of the source is a checked access here.
  \<^item> The members of the class are the fields of the record \<open>RbmMultival\<close>; a trailing
    underscore is not a legal name here, so the member \<open>nv_\<close> is the field \<open>nv_m\<close>, and so
    on. A member function takes the object and returns it, updated, with its result.
\<close>

subsection \<open>Checked coefficient access\<close>

definition coeff :: "'a list \<Rightarrow> nat \<Rightarrow> 'a option" where
  "coeff xs i = (if i < length xs then Some (xs ! i) else None)"

definition coeff_set :: "'a list \<Rightarrow> nat \<Rightarrow> 'a \<Rightarrow> 'a list option" where
  "coeff_set xs i x = (if i < length xs then Some (xs[i := x]) else None)"

definition coeff2 :: "'a list list \<Rightarrow> nat \<Rightarrow> nat \<Rightarrow> 'a option" where
  "coeff2 M i j = do { r \<leftarrow> coeff M i; coeff r j }"

definition coeff2_set :: "'a list list \<Rightarrow> nat \<Rightarrow> nat \<Rightarrow> 'a \<Rightarrow> 'a list list option" where
  "coeff2_set M i j x = do { r \<leftarrow> coeff M i; r' \<leftarrow> coeff_set r j x; coeff_set M i r' }"

text \<open>\<open>for (i = ...; ...; ...) body\<close>: the body runs on each index (or element) of the list in turn and
  the loop stops at the first failure.\<close>

fun for_loop :: "'i list \<Rightarrow> ('i \<Rightarrow> 's \<Rightarrow> 's option) \<Rightarrow> 's \<Rightarrow> 's option" where
  "for_loop [] body s = Some s"
| "for_loop (i # ns) body s = (case body i s of None \<Rightarrow> None | Some s' \<Rightarrow> for_loop ns body s')"

subsection \<open>The collaborators and the object\<close>

text \<open>The configuration space (\<open>AbstractHilbert\<close>): \<open>Size()\<close>, \<open>LocalSize()\<close> and
  \<open>LocalStates()\<close>.\<close>

record hilbert =
  Size :: nat
  LocalSize :: nat
  LocalStates :: "real list"

record RbmMultival =
  hilbert_m :: hilbert
  nv_m :: nat
  ls_m :: nat
  nh_m :: nat
  npar_m :: nat
  usea_m :: bool
  useb_m :: bool
  W_m :: "complex list list"
  a_m :: "complex list"
  b_m :: "complex list"
  thetas_m :: "complex list"
  lnthetas_m :: "complex list"
  thetasnew_m :: "complex list"
  lnthetasnew_m :: "complex list"
  localconfs_m :: "real list"
  mask_m :: "real list list"
  confindex_m :: "real \<rightharpoonup> nat"
  vtilde_m :: "real list"

text \<open>\<open>resize\<close> leaves the coefficients of a buffer unspecified. What each resized buffer
  of \<open>Init\<close> happens to hold is an argument of the model, one function per buffer.\<close>

record storage =
  st_W :: "nat \<Rightarrow> nat \<Rightarrow> complex"
  st_a :: "nat \<Rightarrow> complex"
  st_b :: "nat \<Rightarrow> complex"
  st_thetas :: "nat \<Rightarrow> complex"
  st_lnthetas :: "nat \<Rightarrow> complex"
  st_thetasnew :: "nat \<Rightarrow> complex"
  st_lnthetasnew :: "nat \<Rightarrow> complex"
  st_localconfs :: "nat \<Rightarrow> real"
  st_vtilde :: "nat \<Rightarrow> real"

definition resize :: "nat \<Rightarrow> (nat \<Rightarrow> 'a) \<Rightarrow> 'a list" where
  "resize n f = map f [0..<n]"

definition resize2 :: "nat \<Rightarrow> nat \<Rightarrow> (nat \<Rightarrow> nat \<Rightarrow> 'a) \<Rightarrow> 'a list list" where
  "resize2 r c f = map (\<lambda>i. map (f i) [0..<c]) [0..<r]"

definition setZero :: "'a::zero list \<Rightarrow> 'a list" where
  "setZero xs = replicate (length xs) 0"

definition setZero2 :: "'a::zero list list \<Rightarrow> 'a list list" where
  "setZero2 M = map setZero M"

subsection \<open>\<open>RbmMultival::Init\<close> (lines 39 to 90)\<close>

text \<open>Lines 65 to 70: \<open>for (i = 0; i < nv * ls; i += ls) for (j = 0; j < ls; j++)
  localconfs(i + j) = localstates[j]\<close>. The outer index runs over the multiples of \<open>ls\<close>
  below \<open>nv * ls\<close>.\<close>

definition fill_localconfs :: "nat \<Rightarrow> nat \<Rightarrow> real list \<Rightarrow> real list \<Rightarrow> real list option" where
  "fill_localconfs nv ls localstates lc =
     for_loop (filter (\<lambda>i. i mod ls = 0) [0..<nv * ls])
       (\<lambda>i. for_loop [0..<ls]
          (\<lambda>j lc'. do { x \<leftarrow> coeff localstates j; coeff_set lc' (i + j) x }))
       lc"

text \<open>Lines 75 to 77: \<open>mask(i, i / ls) = 1\<close>.\<close>

definition fill_mask :: "nat \<Rightarrow> nat \<Rightarrow> real list list \<Rightarrow> real list list option" where
  "fill_mask nv ls mk =
     for_loop [0..<nv * ls] (\<lambda>i mk'. coeff2_set mk' i (i div ls) 1) mk"

text \<open>Lines 79 to 81: \<open>confindex[localstates[i]] = i\<close>, on the map as it stands.\<close>

definition fill_confindex :: "nat \<Rightarrow> real list \<Rightarrow> (real \<rightharpoonup> nat) \<Rightarrow> (real \<rightharpoonup> nat) option" where
  "fill_confindex ls localstates ci =
     for_loop [0..<ls] (\<lambda>i ci'. do { x \<leftarrow> coeff localstates i; Some (ci'(x \<mapsto> i)) }) ci"

definition Init :: "storage \<Rightarrow> RbmMultival \<Rightarrow> RbmMultival option" where
  "Init st m =
     (let nv = nv_m m; ls = ls_m m; nh = nh_m m;
          W = resize2 (nv * ls) nh (st_W st);
          a = resize (nv * ls) (st_a st);
          b = resize nh (st_b st);
          npar0 = nv * nh * ls;
          npar1 = (if usea_m m then npar0 + nv * ls else npar0);
          a' = (if usea_m m then a else setZero a);
          npar2 = (if useb_m m then npar1 + nh else npar1);
          b' = (if useb_m m then b else setZero b);
          localstates = LocalStates (hilbert_m m)
      in do {
        lc \<leftarrow> fill_localconfs nv ls localstates (resize (nv * ls) (st_localconfs st));
        mk \<leftarrow> fill_mask nv ls (setZero2 (resize2 (nv * ls) nv (\<lambda>i j. 0)));
        ci \<leftarrow> fill_confindex ls localstates (confindex_m m);
        Some (m\<lparr>W_m := W, a_m := a', b_m := b',
                thetas_m := resize nh (st_thetas st),
                lnthetas_m := resize nh (st_lnthetas st),
                thetasnew_m := resize nh (st_thetasnew st),
                lnthetasnew_m := resize nh (st_lnthetasnew st),
                npar_m := npar2,
                localconfs_m := lc, mask_m := mk, confindex_m := ci,
                vtilde_m := resize (nv * ls) (st_vtilde st)\<rparr>)
      })"

subsection \<open>The constructor (lines 28 to 37)\<close>

text \<open>The members start out empty; \<open>npar\<close> has no value before \<open>Init\<close> assigns it (0 here).\<close>

definition RbmMultival_new ::
  "storage \<Rightarrow> hilbert \<Rightarrow> nat \<Rightarrow> nat \<Rightarrow> bool \<Rightarrow> bool \<Rightarrow> RbmMultival option" where
  "RbmMultival_new st h nhidden alpha usea useb =
     Init st \<lparr>hilbert_m = h, nv_m = Size h, ls_m = LocalSize h,
              nh_m = max nhidden (alpha * Size h), npar_m = 0,
              usea_m = usea, useb_m = useb,
              W_m = [], a_m = [], b_m = [],
              thetas_m = [], lnthetas_m = [], thetasnew_m = [], lnthetasnew_m = [],
              localconfs_m = [], mask_m = [], confindex_m = Map.empty, vtilde_m = []\<rparr>"

subsection \<open>\<open>ComputeVtilde\<close> and \<open>ComputeTheta\<close>\<close>

text \<open>
  Both are members declared in the class header; this file carries their text in the
  disabled block of lines 257 to 269, which is what is modelled:
  \<^verbatim>\<open>auto t = (localconfs_.array() == (mask_ * v).array()); vtilde = t.template cast<double>();\<close>
  and
  \<^verbatim>\<open>ComputeVtilde(v, vtilde_); theta = (W_.transpose() * vtilde_ + b_);\<close>
  The product \<open>mask_ * v\<close> needs as many coefficients in \<open>v\<close> as \<open>mask_\<close> has columns, which
  is \<open>nv\<close> (line 72); the coefficient-wise comparison needs equal sizes; the product
  \<open>W_.transpose() * vtilde_\<close> needs as many rows in \<open>W_\<close> as \<open>vtilde_\<close> has coefficients, and
  the sum needs \<open>b_\<close> to have as many coefficients as \<open>W_\<close> has columns, which is \<open>nh\<close>
  (line 40).
\<close>

definition mat_vec :: "real list list \<Rightarrow> real list \<Rightarrow> real list" where
  "mat_vec M v = map (\<lambda>r. sum_list (map (\<lambda>c. r ! c * v ! c) [0..<length v])) M"

definition ComputeVtilde :: "real list \<Rightarrow> RbmMultival \<Rightarrow> real list option" where
  "ComputeVtilde v m =
     (if length v = nv_m m \<and> list_all (\<lambda>r. length r = nv_m m) (mask_m m)
         \<and> length (localconfs_m m) = length (mask_m m)
      then Some (map2 (\<lambda>x y. if x = y then 1 else 0) (localconfs_m m) (mat_vec (mask_m m) v))
      else None)"

definition transpose_mat_vec :: "complex list list \<Rightarrow> nat \<Rightarrow> real list \<Rightarrow> complex list" where
  "transpose_mat_vec M cols x =
     map (\<lambda>j. sum_list (map (\<lambda>i. M ! i ! j * complex_of_real (x ! i)) [0..<length x])) [0..<cols]"

text \<open>The result is the new \<open>theta\<close> (the reference argument of the source) and the object,
  whose \<open>vtilde_\<close> has been overwritten.\<close>

definition ComputeTheta :: "real list \<Rightarrow> RbmMultival \<Rightarrow> (complex list \<times> RbmMultival) option" where
  "ComputeTheta v m = do {
     vt \<leftarrow> ComputeVtilde v m;
     let m = m\<lparr>vtilde_m := vt\<rparr>;
     if length (W_m m) = length vt \<and> list_all (\<lambda>r. length r = nh_m m) (W_m m)
        \<and> length (b_m m) = nh_m m
     then Some (map2 (+) (transpose_mat_vec (W_m m) (nh_m m) vt) (b_m m), m)
     else None
   }"

subsection \<open>\<open>InitLookup\<close> (lines 96 to 101) and \<open>UpdateLookup\<close> (lines 103 to 118)\<close>

text \<open>The lookup (an \<open>any\<close> holding a vector) is a complex vector owned by the caller.\<close>

definition InitLookup :: "real list \<Rightarrow> RbmMultival \<Rightarrow> (complex list \<times> RbmMultival) option" where
  "InitLookup v m = ComputeTheta v m"

text \<open>\<open>confindex_[x]\<close> on a \<open>std::map\<close>: a key that is not in the map is inserted with the
  value 0, which is returned.\<close>

definition confindex_at :: "real \<Rightarrow> RbmMultival \<Rightarrow> nat \<times> RbmMultival" where
  "confindex_at x m =
     (case confindex_m m x of
        Some i \<Rightarrow> (i, m)
      | None \<Rightarrow> (0, m\<lparr>confindex_m := (confindex_m m)(x \<mapsto> 0)\<rparr>))"

text \<open>\<open>lt -= W.row(r)\<close> and \<open>lt += W.row(r)\<close>: the row must exist and have the size of \<open>lt\<close>.\<close>

definition sub_row :: "complex list \<Rightarrow> complex list list \<Rightarrow> nat \<Rightarrow> complex list option" where
  "sub_row lt M r = do {
     w \<leftarrow> coeff M r;
     if length w = length lt then Some (map2 (-) lt w) else None }"

definition add_row :: "complex list \<Rightarrow> complex list list \<Rightarrow> nat \<Rightarrow> complex list option" where
  "add_row lt M r = do {
     w \<leftarrow> coeff M r;
     if length w = length lt then Some (map2 (+) lt w) else None }"

definition UpdateLookup ::
  "real list \<Rightarrow> nat list \<Rightarrow> real list \<Rightarrow> complex list \<Rightarrow> RbmMultival
     \<Rightarrow> (complex list \<times> RbmMultival) option" where
  "UpdateLookup v tochange newconf lookup m =
     (if length tochange \<noteq> 0
      then for_loop [0..<length tochange]
             (\<lambda>s (lt, m). do {
                sf \<leftarrow> coeff tochange s;
                x \<leftarrow> coeff v sf;
                let (oldtilde, m) = confindex_at x m;
                y \<leftarrow> coeff newconf s;
                let (newtilde, m) = confindex_at y m;
                lt \<leftarrow> sub_row lt (W_m m) (ls_m m * sf + oldtilde);
                lt \<leftarrow> add_row lt (W_m m) (ls_m m * sf + newtilde);
                Some (lt, m) })
             (lookup, m)
      else Some (lookup, m))"

subsection \<open>\<open>DerLogSingle\<close> and \<open>DerLogSingleImpl\<close> (lines 120 to 156)\<close>

text \<open>An empty \<open>any\<close> is \<open>None\<close>. The loop state is the vector \<open>der\<close> and the index \<open>k\<close>, as in
  \<open>GetParameters\<close> below.\<close>

definition DerLogSingleImpl ::
  "real list \<Rightarrow> complex list \<Rightarrow> RbmMultival \<Rightarrow> (complex list \<times> RbmMultival) option" where
  "DerLogSingleImpl v lookup m = do {
     let der = setZero (resize (npar_m m) (\<lambda>_. (0 :: complex)));
     vt \<leftarrow> ComputeVtilde v m;
     let m = m\<lparr>vtilde_m := vt\<rparr>;
     let k = (0 :: nat);
     (der, k) \<leftarrow>
       (if usea_m m
        then do {
          der' \<leftarrow> for_loop [k..<nv_m m * ls_m m]
                    (\<lambda>k der. do { x \<leftarrow> coeff (vtilde_m m) k; coeff_set der k (complex_of_real x) })
                    der;
          Some (der', nv_m m * ls_m m) }
        else Some (der, k));
     let m = m\<lparr>lnthetas_m := map tanh lookup\<rparr>;
     (der, k) \<leftarrow>
       (if useb_m m
        then for_loop [0..<nh_m m]
               (\<lambda>p (der, k). do { x \<leftarrow> coeff (lnthetas_m m) p;
                                   der' \<leftarrow> coeff_set der k x;
                                   Some (der', k + 1) })
               (der, k)
        else Some (der, k));
     (der, k) \<leftarrow>
       for_loop [0..<nv_m m * ls_m m]
         (\<lambda>i. for_loop [0..<nh_m m]
            (\<lambda>j (der, k). do { t \<leftarrow> coeff (lnthetas_m m) j;
                                x \<leftarrow> coeff (vtilde_m m) i;
                                der' \<leftarrow> coeff_set der k (t * complex_of_real x);
                                Some (der', k + 1) }))
         (der, k);
     Some (der, m)
   }"

definition DerLogSingle ::
  "real list \<Rightarrow> complex list option \<Rightarrow> RbmMultival \<Rightarrow> (complex list \<times> RbmMultival) option" where
  "DerLogSingle v lookup m =
     (case lookup of
        None \<Rightarrow> do { (lt, m) \<leftarrow> InitLookup v m; DerLogSingleImpl v lt m }
      | Some lt \<Rightarrow> DerLogSingleImpl v lt m)"

subsection \<open>\<open>GetParameters\<close> (lines 158 to 184) and \<open>SetParameters\<close> (lines 186 to 208)\<close>

text \<open>The loop state is the vector being written and the running index \<open>k\<close>. The vector
  \<open>pars(npar)\<close> is allocated without initialisation: its first contents are the argument
  \<open>fresh\<close>. The first loop counts with \<open>k\<close> itself, from 0, and leaves it at \<open>nv * ls\<close>.\<close>

definition GetParameters :: "(nat \<Rightarrow> complex) \<Rightarrow> RbmMultival \<Rightarrow> complex list option" where
  "GetParameters fresh m =
     (let pars = resize (npar_m m) fresh; k = 0 :: nat
      in do {
        (pars, k) \<leftarrow>
          (if usea_m m
           then do {
             pars' \<leftarrow> for_loop [k..<nv_m m * ls_m m]
                       (\<lambda>k pars. do { x \<leftarrow> coeff (a_m m) k; coeff_set pars k x })
                       pars;
             Some (pars', nv_m m * ls_m m) }
           else Some (pars, k));
        (pars, k) \<leftarrow>
          (if useb_m m
           then for_loop [0..<nh_m m]
                  (\<lambda>p (pars, k). do { x \<leftarrow> coeff (b_m m) p;
                                       pars' \<leftarrow> coeff_set pars k x;
                                       Some (pars', k + 1) })
                  (pars, k)
           else Some (pars, k));
        (pars, k) \<leftarrow>
          for_loop [0..<nv_m m * ls_m m]
            (\<lambda>i. for_loop [0..<nh_m m]
               (\<lambda>j (pars, k). do { x \<leftarrow> coeff2 (W_m m) i j;
                                    pars' \<leftarrow> coeff_set pars k x;
                                    Some (pars', k + 1) }))
            (pars, k);
        Some pars
      })"

text \<open>The loop state of \<open>SetParameters\<close> is the object and \<open>k\<close>.\<close>

definition SetParameters :: "complex list \<Rightarrow> RbmMultival \<Rightarrow> RbmMultival option" where
  "SetParameters pars m =
     (let k = 0 :: nat
      in do {
        (m, k) \<leftarrow>
          (if usea_m m
           then do {
             m' \<leftarrow> for_loop [k..<nv_m m * ls_m m]
                    (\<lambda>k m. do { x \<leftarrow> coeff pars k;
                                 a' \<leftarrow> coeff_set (a_m m) k x;
                                 Some (m\<lparr>a_m := a'\<rparr>) })
                    m;
             Some (m', nv_m m * ls_m m) }
           else Some (m, k));
        (m, k) \<leftarrow>
          (if useb_m m
           then for_loop [0..<nh_m m]
                  (\<lambda>p (m, k). do { x \<leftarrow> coeff pars k;
                                    b' \<leftarrow> coeff_set (b_m m) p x;
                                    Some (m\<lparr>b_m := b'\<rparr>, k + 1) })
                  (m, k)
           else Some (m, k));
        (m, k) \<leftarrow>
          for_loop [0..<nv_m m * ls_m m]
            (\<lambda>i. for_loop [0..<nh_m m]
               (\<lambda>j (m, k). do { x \<leftarrow> coeff pars k;
                                 W' \<leftarrow> coeff2_set (W_m m) i j x;
                                 Some (m\<lparr>W_m := W'\<rparr>, k + 1) }))
            (m, k);
        Some m
      })"

subsection \<open>\<open>LogValDiff\<close> (lines 225 to 255)\<close>

text \<open>\<open>SumLogCosh\<close> (Utils/log\_cosh.hpp) is the externally supplied primitive: an argument
  here. The result vector \<open>logvaldiffs\<close> is returned with the object, whose buffers
  \<open>thetas_\<close>, \<open>thetasnew_\<close> and \<open>vtilde_\<close> the function overwrites.\<close>

definition LogValDiff ::
  "(complex list \<Rightarrow> complex) \<Rightarrow> real list \<Rightarrow> nat list list \<Rightarrow> real list list \<Rightarrow> RbmMultival
     \<Rightarrow> (complex list \<times> RbmMultival) option" where
  "LogValDiff SumLogCosh v tochange newconf m = do {
     let nconn = length tochange;
     let logvaldiffs = replicate nconn (0 :: complex);
     (th, m) \<leftarrow> ComputeTheta v m;
     let m = m\<lparr>thetas_m := th\<rparr>;
     let logtsum = SumLogCosh (thetas_m m);
     for_loop [0..<nconn]
       (\<lambda>k (logvaldiffs, m). do {
          tck \<leftarrow> coeff tochange k;
          if length tck \<noteq> 0
          then do {
            let m = m\<lparr>thetasnew_m := thetas_m m\<rparr>;
            (logvaldiffs, m) \<leftarrow>
              for_loop [0..<length tck]
                (\<lambda>s (logvaldiffs, m). do {
                   sf \<leftarrow> coeff tck s;
                   x \<leftarrow> coeff v sf;
                   let (oldtilde, m) = confindex_at x m;
                   nck \<leftarrow> coeff newconf k;
                   y \<leftarrow> coeff nck s;
                   let (newtilde, m) = confindex_at y m;
                   d \<leftarrow> coeff logvaldiffs k;
                   ao \<leftarrow> coeff (a_m m) (ls_m m * sf + oldtilde);
                   logvaldiffs \<leftarrow> coeff_set logvaldiffs k (d - ao);
                   d \<leftarrow> coeff logvaldiffs k;
                   an \<leftarrow> coeff (a_m m) (ls_m m * sf + newtilde);
                   logvaldiffs \<leftarrow> coeff_set logvaldiffs k (d + an);
                   tn \<leftarrow> sub_row (thetasnew_m m) (W_m m) (ls_m m * sf + oldtilde);
                   let m = m\<lparr>thetasnew_m := tn\<rparr>;
                   tn \<leftarrow> add_row (thetasnew_m m) (W_m m) (ls_m m * sf + newtilde);
                   let m = m\<lparr>thetasnew_m := tn\<rparr>;
                   Some (logvaldiffs, m) })
                (logvaldiffs, m);
            d \<leftarrow> coeff logvaldiffs k;
            logvaldiffs \<leftarrow> coeff_set logvaldiffs k (d + (SumLogCosh (thetasnew_m m) - logtsum));
            Some (logvaldiffs, m) }
          else Some (logvaldiffs, m) })
       (logvaldiffs, m)
   }"

subsection \<open>\<open>Load\<close> (lines 285 to 335)\<close>

text \<open>
  The document returned by \<open>ReadJsonFromFile\<close> is a record of optional fields, each at
  the type the schema gives it: \<open>None\<close> is a field the document does not have.
\<close>

record json_state =
  j_Name :: "string option"
  j_Nvisible :: "nat option"
  j_Nhidden :: "nat option"
  j_Alpha :: "real option"
  j_LocalSize :: "nat option"
  j_UseVisibleBias :: "bool option"
  j_UseHiddenBias :: "bool option"
  j_a :: "complex list option"
  j_b :: "complex list option"
  j_W :: "complex list list option"

text \<open>\<open>InvalidInputError\<close> carries the message of the source; \<open>MissingField\<close> is the
  exception of \<open>pars.at(...)\<close> (line 287) on a document that lacks the field.\<close>

datatype error = InvalidInputError string | MissingField string

text \<open>A call either returns with the object loaded, or throws and leaves the object as the
  statements before the throw made it, or stops in an Eigen assertion.\<close>

datatype load_result = Loaded RbmMultival | Thrown error RbmMultival | Aborted

text \<open>Modelled from the spec: \<open>FieldExists\<close>, \<open>FieldVal\<close> and \<open>FieldOrDefaultVal\<close>
  (Utils/json\_helper.hpp) are not among the sources. The spec has \<open>Load\<close> recover a
  value "if present" (\<open>FieldExists\<close>), recover \<open>nh\<close> "from an explicit field"
  (\<open>FieldVal\<close> of a field that is there gives its value), and default the two flags "to
  true if absent" (\<open>FieldOrDefaultVal\<close>). What \<open>FieldVal\<close> does for a field that is not
  there is said neither by the sources nor by the spec: it is the argument \<open>absent\<close>, an
  error thrown or a value returned, and \<open>Load\<close> takes it as a parameter at each of the
  two types it reads (\<open>int\<close> for \<open>Nhidden\<close>, \<open>double\<close> for \<open>Alpha\<close>).\<close>

definition FieldExists :: "'a option \<Rightarrow> bool" where
  "FieldExists field = (field \<noteq> None)"

definition FieldVal :: "(string \<Rightarrow> error + 'a) \<Rightarrow> 'a option \<Rightarrow> string \<Rightarrow> error + 'a" where
  "FieldVal absent field name = (case field of None \<Rightarrow> absent name | Some x \<Rightarrow> Inr x)"

definition FieldOrDefaultVal :: "'a option \<Rightarrow> 'a \<Rightarrow> 'a" where
  "FieldOrDefaultVal field dflt = (case field of None \<Rightarrow> dflt | Some x \<Rightarrow> x)"

text \<open>Line 312, \<open>nh_ = nv_ * double(alpha)\<close>: the product is a \<open>double\<close>, truncated toward
  zero by the assignment. A negative count is rejected by the first \<open>resize\<close> of \<open>Init\<close>.\<close>

definition nh_from_alpha :: "nat \<Rightarrow> real \<Rightarrow> nat option" where
  "nh_from_alpha nv alpha =
     (if real nv * alpha \<le> - 1 then None else Some (nat \<lfloor>real nv * alpha\<rfloor>))"

definition Load ::
  "(string \<Rightarrow> error + nat) \<Rightarrow> (string \<Rightarrow> error + real) \<Rightarrow> storage \<Rightarrow> json_state \<Rightarrow> RbmMultival
     \<Rightarrow> load_result" where
  "Load absent_int absent_double st pars m =
     (case j_Name pars of
        None \<Rightarrow> Thrown (MissingField ''Name'') m
      | Some name \<Rightarrow>
     if name \<noteq> ''RbmMultival''
     then Thrown (InvalidInputError ''Error while constructing RbmMultival from Json input'') m
     else
     let m = (if FieldExists (j_Nvisible pars)
              then (case j_Nvisible pars of Some n \<Rightarrow> m\<lparr>nv_m := n\<rparr> | None \<Rightarrow> m) else m)
     in
     if nv_m m \<noteq> Size (hilbert_m m)
     then Thrown (InvalidInputError ''Loaded wave-function has incompatible Hilbert space'') m
     else
     let m = (if FieldExists (j_LocalSize pars)
              then (case j_LocalSize pars of Some n \<Rightarrow> m\<lparr>ls_m := n\<rparr> | None \<Rightarrow> m) else m)
     in
     if ls_m m \<noteq> LocalSize (hilbert_m m)
     then Thrown (InvalidInputError ''Loaded wave-function has incompatible Hilbert space'') m
     else
     (case (if FieldExists (j_Nhidden pars)
            then map_sum id Some (FieldVal absent_int (j_Nhidden pars) ''Nhidden'')
            else map_sum id (nh_from_alpha (nv_m m)) (FieldVal absent_double (j_Alpha pars) ''Alpha'')) of
        Inl e \<Rightarrow> Thrown e m
      | Inr None \<Rightarrow> Aborted
      | Inr (Some nh) \<Rightarrow>
     let m = m\<lparr>nh_m := nh\<rparr>;
         m = m\<lparr>usea_m := FieldOrDefaultVal (j_UseVisibleBias pars) True\<rparr>;
         m = m\<lparr>useb_m := FieldOrDefaultVal (j_UseHiddenBias pars) True\<rparr>
     in
     (case Init st m of
        None \<Rightarrow> Aborted
      | Some m \<Rightarrow>
     let m = (if FieldExists (j_a pars)
              then (case j_a pars of Some x \<Rightarrow> m\<lparr>a_m := x\<rparr> | None \<Rightarrow> m)
              else m\<lparr>a_m := setZero (a_m m)\<rparr>);
         m = (if FieldExists (j_b pars)
              then (case j_b pars of Some x \<Rightarrow> m\<lparr>b_m := x\<rparr> | None \<Rightarrow> m)
              else m\<lparr>b_m := setZero (b_m m)\<rparr>);
         m = (if FieldExists (j_W pars)
              then (case j_W pars of Some x \<Rightarrow> m\<lparr>W_m := x\<rparr> | None \<Rightarrow> m) else m)
     in Loaded m)))"

subsection \<open>\<open>Save\<close> (lines 271 to 283)\<close>

text \<open>The document \<open>Save\<close> hands to \<open>WriteJsonToFile\<close>.\<close>

definition Save :: "RbmMultival \<Rightarrow> json_state" where
  "Save m = \<lparr>j_Name = Some ''RbmMultival'', j_Nvisible = Some (nv_m m), j_Nhidden = Some (nh_m m),
     j_Alpha = None, j_LocalSize = Some (ls_m m),
     j_UseVisibleBias = Some (usea_m m), j_UseHiddenBias = Some (useb_m m),
     j_a = Some (a_m m), j_b = Some (b_m m), j_W = Some (W_m m)\<rparr>"

section \<open>Auxiliary definitions\<close>

text \<open>\<open>seq_written xs k n f\<close> is \<open>xs\<close> after the coefficients \<open>k, ..., k + n - 1\<close> have been
  overwritten with \<open>f 0, ..., f (n - 1)\<close>: what a loop \<open>xs(k++) = f(p)\<close> leaves behind.\<close>

definition seq_written :: "'a list \<Rightarrow> nat \<Rightarrow> nat \<Rightarrow> (nat \<Rightarrow> 'a) \<Rightarrow> 'a list" where
  "seq_written xs k n f = map (\<lambda>t. if k \<le> t \<and> t < k + n then f (t - k) else xs ! t) [0..<length xs]"

text \<open>The flatten order: where the block of \<open>b\<close> and the block of \<open>W\<close> start in the parameter
  vector, the coefficient at each position, and the whole vector.\<close>

definition off_b :: "RbmMultival \<Rightarrow> nat" where
  "off_b m = (if usea_m m then nv_m m * ls_m m else 0)"

definition off_W :: "RbmMultival \<Rightarrow> nat" where
  "off_W m = off_b m + (if useb_m m then nh_m m else 0)"

definition flat_at :: "RbmMultival \<Rightarrow> nat \<Rightarrow> complex" where
  "flat_at m t =
     (if t < off_b m then a_m m ! t
      else if t < off_W m then b_m m ! (t - off_b m)
      else W_m m ! ((t - off_W m) div nh_m m) ! ((t - off_W m) mod nh_m m))"

definition flatten :: "RbmMultival \<Rightarrow> complex list" where
  "flatten m = (if usea_m m then a_m m else []) @ (if useb_m m then b_m m else []) @ concat (W_m m)"

definition unflatten :: "complex list \<Rightarrow> RbmMultival \<Rightarrow> RbmMultival" where
  "unflatten pars m =
     m\<lparr>a_m := (if usea_m m then map (\<lambda>k. pars ! k) [0..<nv_m m * ls_m m] else a_m m),
       b_m := (if useb_m m then map (\<lambda>p. pars ! (off_b m + p)) [0..<nh_m m] else b_m m),
       W_m := map (\<lambda>i. map (\<lambda>j. pars ! (off_W m + i * nh_m m + j)) [0..<nh_m m])
                [0..<nv_m m * ls_m m]\<rparr>"

text \<open>The sizes \<open>Init\<close> gives the parameters and \<open>npar\<close>.\<close>

definition dims_ok :: "RbmMultival \<Rightarrow> bool" where
  "dims_ok m \<longleftrightarrow>
     length (W_m m) = nv_m m * ls_m m \<and> list_all (\<lambda>r. length r = nh_m m) (W_m m) \<and>
     length (a_m m) = nv_m m * ls_m m \<and> length (b_m m) = nh_m m \<and>
     npar_m m = off_W m + nv_m m * ls_m m * nh_m m"

text \<open>The tables \<open>Init\<close> builds from the local values of a configuration space whose
  \<open>LocalStates\<close> are \<open>LocalSize\<close> distinct values: \<open>localconfs_\<close> repeats them for every site,
  row \<open>i\<close> of \<open>mask_\<close> is the unit vector of the site \<open>i / ls\<close>, and \<open>confindex_\<close> gives every
  local value its position. An object with these sizes and tables is what the constructor
  returns and \<open>SetParameters\<close> keeps (\<open>RbmMultival_new_ok\<close>, \<open>SetParameters_ok\<close> below).\<close>

definition tables_ok :: "RbmMultival \<Rightarrow> bool" where
  "tables_ok m \<longleftrightarrow>
     length (LocalStates (hilbert_m m)) = ls_m m \<and> distinct (LocalStates (hilbert_m m)) \<and>
     localconfs_m m = map (\<lambda>t. LocalStates (hilbert_m m) ! (t mod ls_m m)) [0..<nv_m m * ls_m m] \<and>
     mask_m m = map (\<lambda>i. (replicate (nv_m m) 0)[i div ls_m m := 1]) [0..<nv_m m * ls_m m] \<and>
     map (confindex_m m) (LocalStates (hilbert_m m)) = map Some [0..<ls_m m]"

definition machine_ok :: "RbmMultival \<Rightarrow> bool" where
  "machine_ok m \<longleftrightarrow> dims_ok m \<and> tables_ok m"

text \<open>What \<open>ComputeVtilde\<close> computes on such an object (\<open>ComputeVtilde_encode\<close>): coefficient
  \<open>t\<close> is 1 when local value number \<open>t mod ls\<close> is the value of site \<open>t div ls\<close>.\<close>

definition encode :: "RbmMultival \<Rightarrow> real list \<Rightarrow> real list" where
  "encode m v = map (\<lambda>t. if LocalStates (hilbert_m m) ! (t mod ls_m m) = v ! (t div ls_m m) then 1 else 0)
                  [0..<nv_m m * ls_m m]"

text \<open>The index \<open>confindex_[x]\<close> returns, and the lookup in closed form: \<open>b\<close> plus, for every site,
  the row of \<open>W\<close> at the extended index \<open>ls * s + confindex_[v(s)]\<close>. It is what
  \<open>ComputeTheta\<close> returns for a configuration of legal values (\<open>ComputeTheta_theta_of\<close>).\<close>

definition index_of :: "RbmMultival \<Rightarrow> real \<Rightarrow> nat" where
  "index_of m x = fst (confindex_at x m)"

definition theta_of :: "RbmMultival \<Rightarrow> real list \<Rightarrow> complex list" where
  "theta_of m v =
     map (\<lambda>j. sum_list (map (\<lambda>s. W_m m ! (ls_m m * s + index_of m (v ! s)) ! j) [0..<nv_m m]) + b_m m ! j)
       [0..<nh_m m]"

text \<open>A configuration: one legal local value per site. A change list: sites in range, as
  many new values as sites, every new value legal.\<close>

definition legal_conf :: "RbmMultival \<Rightarrow> real list \<Rightarrow> bool" where
  "legal_conf m v \<longleftrightarrow> length v = nv_m m \<and> list_all (\<lambda>x. x \<in> set (LocalStates (hilbert_m m))) v"

definition valid_change :: "RbmMultival \<Rightarrow> nat list \<Rightarrow> real list \<Rightarrow> bool" where
  "valid_change m tochange newconf \<longleftrightarrow>
     length newconf = length tochange \<and> list_all (\<lambda>sf. sf < nv_m m) tochange \<and>
     list_all (\<lambda>y. y \<in> set (LocalStates (hilbert_m m))) newconf"

text \<open>The coefficient \<open>j\<close> of the row of \<open>W\<close> for the value \<open>x\<close> at the site \<open>sf\<close>, and the sums over
  a change list of the rows \<open>UpdateLookup\<close> adds (for the new values) and removes (for the
  values the configuration \<open>v\<close> has at the listed sites), one term per occurrence.\<close>

definition W_at :: "RbmMultival \<Rightarrow> nat \<Rightarrow> real \<Rightarrow> nat \<Rightarrow> complex" where
  "W_at m sf x j = W_m m ! (ls_m m * sf + index_of m x) ! j"

definition rows_added :: "RbmMultival \<Rightarrow> nat list \<Rightarrow> real list \<Rightarrow> nat \<Rightarrow> complex" where
  "rows_added m tochange newconf j =
     sum_list (map (\<lambda>s. W_at m (tochange ! s) (newconf ! s) j) [0..<length tochange])"

definition rows_removed :: "RbmMultival \<Rightarrow> real list \<Rightarrow> nat list \<Rightarrow> nat \<Rightarrow> complex" where
  "rows_removed m v tochange j =
     sum_list (map (\<lambda>s. W_at m (tochange ! s) (v ! (tochange ! s)) j) [0..<length tochange])"

text \<open>Modelled from the spec: the configuration a change leads to, "\<open>c\<close> with site \<open>s\<close> set to
  \<open>newValue\<close>", for every pair of the change list in turn. The code that changes the
  configuration (the sampler's, through the configuration space) is not among the
  sources. \<open>run_updates\<close> is the sampler's use of the lookup: each update in turn, applied
  to the lookup and to the configuration the previous ones left.\<close>

definition apply_changes :: "real list \<Rightarrow> nat list \<Rightarrow> real list \<Rightarrow> real list" where
  "apply_changes v tochange newconf = fold (\<lambda>(sf, y) v'. v'[sf := y]) (zip tochange newconf) v"

fun run_updates ::
  "(nat list \<times> real list) list \<Rightarrow> real list \<Rightarrow> complex list \<Rightarrow> RbmMultival
     \<Rightarrow> (real list \<times> complex list \<times> RbmMultival) option" where
  "run_updates [] v lt m = Some (v, lt, m)"
| "run_updates ((tochange, newconf) # us) v lt m = do {
     (lt', m') \<leftarrow> UpdateLookup v tochange newconf lt m;
     run_updates us (apply_changes v tochange newconf) lt' m' }"

text \<open>The specification's reading of \<open>LogValDiff\<close>, for the comparison with the code: the bias
  difference of a move, the lookup of the moved configuration (the base lookup with the
  rows of the move exchanged), and the vector of results.\<close>

definition a_at :: "RbmMultival \<Rightarrow> nat \<Rightarrow> real \<Rightarrow> complex" where
  "a_at m sf x = a_m m ! (ls_m m * sf + index_of m x)"

definition bias_delta :: "RbmMultival \<Rightarrow> real list \<Rightarrow> nat list \<Rightarrow> real list \<Rightarrow> complex" where
  "bias_delta m v tochange newconf =
     sum_list (map (\<lambda>s. a_at m (tochange ! s) (newconf ! s) - a_at m (tochange ! s) (v ! (tochange ! s)))
                 [0..<length tochange])"

definition theta_moved :: "RbmMultival \<Rightarrow> real list \<Rightarrow> nat list \<Rightarrow> real list \<Rightarrow> complex list" where
  "theta_moved m v tochange newconf =
     map (\<lambda>j. theta_of m v ! j - rows_removed m v tochange j + rows_added m tochange newconf j)
       [0..<nh_m m]"

definition LogValDiff_spec ::
  "(complex list \<Rightarrow> complex) \<Rightarrow> RbmMultival \<Rightarrow> real list \<Rightarrow> nat list list \<Rightarrow> real list list
     \<Rightarrow> complex list" where
  "LogValDiff_spec SumLogCosh m v tochange newconf =
     map (\<lambda>k. bias_delta m v (tochange ! k) (newconf ! k)
               + SumLogCosh (theta_moved m v (tochange ! k) (newconf ! k))
               - SumLogCosh (theta_of m v))
       [0..<length tochange]"

text \<open>\<open>buffers_only m m'\<close>: \<open>m'\<close> is \<open>m\<close> but for the buffers \<open>thetas_\<close>, \<open>thetasnew_\<close> and \<open>vtilde_\<close>
  and for keys added to \<open>confindex_\<close>, which return the index they returned before.\<close>

definition buffers_only :: "RbmMultival \<Rightarrow> RbmMultival \<Rightarrow> bool" where
  "buffers_only m m' \<longleftrightarrow>
     hilbert_m m' = hilbert_m m \<and> nv_m m' = nv_m m \<and> ls_m m' = ls_m m \<and> nh_m m' = nh_m m \<and>
     npar_m m' = npar_m m \<and> usea_m m' = usea_m m \<and> useb_m m' = useb_m m \<and>
     W_m m' = W_m m \<and> a_m m' = a_m m \<and> b_m m' = b_m m \<and>
     lnthetas_m m' = lnthetas_m m \<and> lnthetasnew_m m' = lnthetasnew_m m \<and>
     localconfs_m m' = localconfs_m m \<and> mask_m m' = mask_m m \<and>
     (\<forall>x. index_of m' x = index_of m x)"

text \<open>The gradient as an object: \<open>a\<close> holds the derivatives with respect to \<open>a\<close>, and so on.\<close>

definition grad_params :: "RbmMultival \<Rightarrow> real list \<Rightarrow> complex list \<Rightarrow> RbmMultival" where
  "grad_params m v theta =
     m\<lparr>a_m := map complex_of_real (encode m v),
       b_m := map tanh theta,
       W_m := map (\<lambda>i. map (\<lambda>j. tanh (theta ! j) * complex_of_real (encode m v ! i)) [0..<nh_m m])
                [0..<nv_m m * ls_m m]\<rparr>"

text \<open>Two states of the loops of \<open>LogValDiff\<close> that differ in the unread buffers only.\<close>

definition sim_inner :: "complex list \<times> RbmMultival \<Rightarrow> complex list \<times> RbmMultival \<Rightarrow> bool" where
  "sim_inner = (\<lambda>(l1, n1) (l2, n2). l1 = l2 \<and> buffers_only n1 n2 \<and> thetas_m n1 = thetas_m n2
                  \<and> thetasnew_m n1 = thetasnew_m n2)"

definition sim_outer :: "complex list \<times> RbmMultival \<Rightarrow> complex list \<times> RbmMultival \<Rightarrow> bool" where
  "sim_outer = (\<lambda>(l1, n1) (l2, n2). l1 = l2 \<and> buffers_only n1 n2 \<and> thetas_m n1 = thetas_m n2)"

text \<open>The scenario of the specification: two sites with local values \<open>-1\<close> and \<open>+1\<close>, two
  hidden units, both biases enabled, small fixed parameters.\<close>

definition ex_hilbert :: hilbert where
  "ex_hilbert = \<lparr>Size = 2, LocalSize = 2, LocalStates = [- 1, 1]\<rparr>"

definition ex_storage :: storage where
  "ex_storage = \<lparr>st_W = (\<lambda>i j. 0), st_a = (\<lambda>i. 0), st_b = (\<lambda>i. 0), st_thetas = (\<lambda>i. 0),
     st_lnthetas = (\<lambda>i. 0), st_thetasnew = (\<lambda>i. 0), st_lnthetasnew = (\<lambda>i. 0),
     st_localconfs = (\<lambda>i. 0), st_vtilde = (\<lambda>i. 0)\<rparr>"

definition ex_pars :: "complex list" where
  "ex_pars = [1, 2, 3, 4, 1, - 1, 1, 2, 3, 4, 5, 6, 7, 8]"

definition ex_machine :: RbmMultival where
  "ex_machine = \<lparr>hilbert_m = ex_hilbert, nv_m = 2, ls_m = 2, nh_m = 2, npar_m = 14,
     usea_m = True, useb_m = True,
     W_m = [[1, 2], [3, 4], [5, 6], [7, 8]], a_m = [1, 2, 3, 4], b_m = [1, - 1],
     thetas_m = [0, 0], lnthetas_m = [0, 0], thetasnew_m = [0, 0], lnthetasnew_m = [0, 0],
     localconfs_m = [- 1, 1, - 1, 1], mask_m = [[1, 0], [1, 0], [0, 1], [0, 1]],
     confindex_m = [- 1 \<mapsto> 0, 1 \<mapsto> 1], vtilde_m = [0, 0, 0, 0]\<rparr>"

text \<open>The object before \<open>Init\<close> has run, with only the visible bias enabled.\<close>

definition ex_blank :: RbmMultival where
  "ex_blank = \<lparr>hilbert_m = ex_hilbert, nv_m = 2, ls_m = 2, nh_m = 3, npar_m = 0,
     usea_m = True, useb_m = False,
     W_m = [], a_m = [], b_m = [],
     thetas_m = [], lnthetas_m = [], thetasnew_m = [], lnthetasnew_m = [],
     localconfs_m = [], mask_m = [], confindex_m = Map.empty, vtilde_m = []\<rparr>"

text \<open>The record \<open>Save\<close> writes for the object of the scenario, and the error of lines 297
  and 305.\<close>

definition ex_record :: json_state where
  "ex_record = \<lparr>j_Name = Some ''RbmMultival'', j_Nvisible = Some 2, j_Nhidden = Some 2,
     j_Alpha = None, j_LocalSize = Some 2, j_UseVisibleBias = Some True, j_UseHiddenBias = Some True,
     j_a = Some [1, 2, 3, 4], j_b = Some [1, - 1], j_W = Some [[1, 2], [3, 4], [5, 6], [7, 8]]\<rparr>"

text \<open>A helper for the scenario, whose read of an absent field throws. The records of the
  scenario are rejected before \<open>Load\<close> reads through \<open>FieldVal\<close>, or have the field it
  reads, so the choice is never consulted.\<close>

definition ex_absent :: "string \<Rightarrow> error + 'a" where
  "ex_absent name = Inl (MissingField name)"

definition incompatible :: error where
  "incompatible = InvalidInputError ''Loaded wave-function has incompatible Hilbert space''"

section \<open>Loops\<close>

lemma for_loop_append:
  "for_loop (xs @ ys) body s = (case for_loop xs body s of None \<Rightarrow> None | Some s' \<Rightarrow> for_loop ys body s')"
  by (induction xs arbitrary: s) (auto split: option.splits)

lemma for_loop_Suc:
  "for_loop [0..<Suc n] body s = (case for_loop [0..<n] body s of None \<Rightarrow> None | Some s' \<Rightarrow> body n s')"
  by (simp add: for_loop_append split: option.splits)

lemma length_seq_written [simp]: "length (seq_written xs k n f) = length xs"
  by (simp add: seq_written_def)

lemma nth_seq_written:
  "t < length xs \<Longrightarrow> seq_written xs k n f ! t = (if k \<le> t \<and> t < k + n then f (t - k) else xs ! t)"
  by (simp add: seq_written_def)

lemma seq_written_0 [simp]: "seq_written xs k 0 f = xs"
  by (rule nth_equalityI) (auto simp: nth_seq_written)

lemma seq_written_step:
  "k + n < length xs \<Longrightarrow> (seq_written xs k n f)[k + n := f n] = seq_written xs k (Suc n) f"
  by (rule nth_equalityI) (auto simp: nth_seq_written nth_list_update)

lemma seq_written_full:
  "length xs = n \<Longrightarrow> seq_written xs 0 n f = map f [0..<n]"
  by (rule nth_equalityI) (auto simp: nth_seq_written)

lemma loop_write_k:
  assumes "\<And>p. p < n \<Longrightarrow> g p = Some (f p)" and "k + n \<le> length pars"
  shows "for_loop [0..<n]
           (\<lambda>p (pars, k). do { x \<leftarrow> g p; pars' \<leftarrow> coeff_set pars k x; Some (pars', k + 1) })
           (pars, k) = Some (seq_written pars k n f, k + n)"
  using assms
proof (induction n)
  case 0
  then show ?case by simp
next
  case (Suc n)
  then show ?case
    by (simp add: for_loop_Suc coeff_set_def seq_written_step del: upt_Suc)
qed

lemma loop_write_idx:
  assumes "\<And>p. p < n \<Longrightarrow> g p = Some (f p)" and "n \<le> length pars"
  shows "for_loop [0..<n] (\<lambda>k pars. do { x \<leftarrow> g k; coeff_set pars k x }) pars
           = Some (seq_written pars 0 n f)"
  using assms
proof (induction n)
  case 0
  then show ?case by simp
next
  case (Suc n)
  then show ?case
    using seq_written_step [of 0 n pars f]
    by (simp add: for_loop_Suc coeff_set_def del: upt_Suc)
qed

lemma seq_written_seq:
  assumes "\<And>j. j < n2 \<Longrightarrow> f2 j = f (n1 + j)"
  shows "seq_written (seq_written xs k n1 f) (k + n1) n2 f2 = seq_written xs k (n1 + n2) f"
proof (rule nth_equalityI)
  show "length (seq_written (seq_written xs k n1 f) (k + n1) n2 f2) = length (seq_written xs k (n1 + n2) f)"
    by simp
next
  fix t assume "t < length (seq_written (seq_written xs k n1 f) (k + n1) n2 f2)"
  then have t: "t < length xs" by simp
  show "seq_written (seq_written xs k n1 f) (k + n1) n2 f2 ! t = seq_written xs k (n1 + n2) f ! t"
  proof (cases "k + n1 \<le> t \<and> t < k + n1 + n2")
    case True
    then have "t - (k + n1) < n2" by arith
    from assms [OF this] True t show ?thesis
      by (simp add: nth_seq_written)
  next
    case False
    with t show ?thesis by (auto simp: nth_seq_written)
  qed
qed

lemma loop_write_rows:
  assumes "\<And>i j. i < r \<Longrightarrow> j < c \<Longrightarrow> g i j = Some (F i j)" and "k + r * c \<le> length pars"
  shows "for_loop [0..<r]
           (\<lambda>i. for_loop [0..<c]
              (\<lambda>j (pars, k). do { x \<leftarrow> g i j; pars' \<leftarrow> coeff_set pars k x; Some (pars', k + 1) }))
           (pars, k)
         = Some (seq_written pars k (r * c) (\<lambda>q. F (q div c) (q mod c)), k + r * c)"
  using assms
proof (induction r)
  case 0
  then show ?case by simp
next
  case (Suc r)
  have inner: "for_loop [0..<c]
      (\<lambda>j (pars, k). do { x \<leftarrow> g r j; pars' \<leftarrow> coeff_set pars k x; Some (pars', k + 1) })
      (seq_written pars k (r * c) (\<lambda>q. F (q div c) (q mod c)), k + r * c)
    = Some (seq_written (seq_written pars k (r * c) (\<lambda>q. F (q div c) (q mod c))) (k + r * c) c (F r),
            k + r * c + c)"
    using Suc.prems by (intro loop_write_k) auto
  have glue: "seq_written (seq_written pars k (r * c) (\<lambda>q. F (q div c) (q mod c))) (k + r * c) c (F r)
      = seq_written pars k (r * c + c) (\<lambda>q. F (q div c) (q mod c))"
    by (rule seq_written_seq) simp
  have IH: "for_loop [0..<r]
           (\<lambda>i. for_loop [0..<c]
              (\<lambda>j (pars, k). do { x \<leftarrow> g i j; pars' \<leftarrow> coeff_set pars k x; Some (pars', k + 1) }))
           (pars, k)
         = Some (seq_written pars k (r * c) (\<lambda>q. F (q div c) (q mod c)), k + r * c)"
    using Suc.prems by (intro Suc.IH) auto
  show ?case
    unfolding for_loop_Suc IH option.case inner glue
    by (simp add: ac_simps)
qed

lemma coeff2_ok:
  "i < length M \<Longrightarrow> j < length (M ! i) \<Longrightarrow> coeff2 M i j = Some (M ! i ! j)"
  by (simp add: coeff2_def coeff_def)

lemma dims_ok_row: "dims_ok m \<Longrightarrow> i < nv_m m * ls_m m \<Longrightarrow> length (W_m m ! i) = nh_m m"
  by (simp add: dims_ok_def list_all_length)

lemma GetParameters_flat:
  assumes ok: "dims_ok m"
  shows "GetParameters fresh m = Some (map (flat_at m) [0..<npar_m m])"
proof -
  let ?na = "nv_m m * ls_m m"
  let ?P0 = "resize (npar_m m) fresh"
  let ?P1 = "seq_written ?P0 0 (off_b m) (\<lambda>k. a_m m ! k)"
  let ?P2 = "seq_written ?P1 (off_b m) (off_W m - off_b m) (\<lambda>p. b_m m ! p)"
  let ?G = "\<lambda>q. W_m m ! (q div nh_m m) ! (q mod nh_m m)"
  let ?P3 = "seq_written ?P2 (off_W m) (?na * nh_m m) ?G"
  have len0: "length ?P0 = npar_m m" by (simp add: resize_def)
  have np: "npar_m m = off_W m + ?na * nh_m m" and la: "length (a_m m) = ?na"
    and lb: "length (b_m m) = nh_m m" and lW: "length (W_m m) = ?na"
    using ok by (simp_all add: dims_ok_def)
  have bW: "off_b m \<le> off_W m" by (simp add: off_W_def)
  have A: "(if usea_m m
           then do {
             pars' \<leftarrow> for_loop [0..<?na]
                       (\<lambda>k pars. do { x \<leftarrow> coeff (a_m m) k; coeff_set pars k x })
                       ?P0;
             Some (pars', ?na) }
           else Some (?P0, 0)) = Some (?P1, off_b m)"
  proof (cases "usea_m m")
    case True
    have "for_loop [0..<?na] (\<lambda>k pars. do { x \<leftarrow> coeff (a_m m) k; coeff_set pars k x }) ?P0
        = Some (seq_written ?P0 0 ?na (\<lambda>k. a_m m ! k))"
      using la np len0 True by (intro loop_write_idx) (auto simp: coeff_def off_W_def off_b_def)
    with True show ?thesis by (simp add: off_b_def)
  next
    case False
    then show ?thesis by (simp add: off_b_def)
  qed
  have B: "(if useb_m m
           then for_loop [0..<nh_m m]
                  (\<lambda>p (pars, k). do { x \<leftarrow> coeff (b_m m) p;
                                       pars' \<leftarrow> coeff_set pars k x;
                                       Some (pars', k + 1) })
                  (?P1, off_b m)
           else Some (?P1, off_b m)) = Some (?P2, off_W m)"
  proof (cases "useb_m m")
    case True
    have "for_loop [0..<nh_m m]
                  (\<lambda>p (pars, k). do { x \<leftarrow> coeff (b_m m) p;
                                       pars' \<leftarrow> coeff_set pars k x;
                                       Some (pars', k + 1) })
                  (?P1, off_b m) = Some (seq_written ?P1 (off_b m) (nh_m m) (\<lambda>p. b_m m ! p), off_b m + nh_m m)"
      using lb np len0 True by (intro loop_write_k) (auto simp: coeff_def off_W_def)
    with True show ?thesis by (simp add: off_W_def)
  next
    case False
    then show ?thesis by (simp add: off_W_def)
  qed
  have C: "for_loop [0..<?na]
            (\<lambda>i. for_loop [0..<nh_m m]
               (\<lambda>j (pars, k). do { x \<leftarrow> coeff2 (W_m m) i j;
                                    pars' \<leftarrow> coeff_set pars k x;
                                    Some (pars', k + 1) }))
            (?P2, off_W m) = Some (?P3, off_W m + ?na * nh_m m)"
    using lW np len0 dims_ok_row [OF ok] by (intro loop_write_rows) (auto simp: coeff2_ok)
  have fin: "?P3 = map (flat_at m) [0..<npar_m m]"
  proof (rule nth_equalityI)
    show "length ?P3 = length (map (flat_at m) [0..<npar_m m])"
      using len0 by simp
  next
    fix t assume "t < length ?P3"
    then have t: "t < npar_m m" using len0 by simp
    then show "?P3 ! t = map (flat_at m) [0..<npar_m m] ! t"
      using len0 np bW by (auto simp: nth_seq_written flat_at_def)
  qed
  show ?thesis
    unfolding GetParameters_def Let_def
    by (simp only: A B C fin Option.bind.simps prod.case)
qed

lemma set_a_loop:
  assumes "n \<le> length pars" and "n \<le> length (a_m m)"
  shows "for_loop [0..<n]
           (\<lambda>k m. do { x \<leftarrow> coeff pars k; a' \<leftarrow> coeff_set (a_m m) k x; Some (m\<lparr>a_m := a'\<rparr>) }) m
         = Some (m\<lparr>a_m := seq_written (a_m m) 0 n (\<lambda>k. pars ! k)\<rparr>)"
  using assms
proof (induction n)
  case 0
  then show ?case by simp
next
  case (Suc n)
  then show ?case
    using seq_written_step [of 0 n "a_m m" "\<lambda>k. pars ! k"]
    by (simp add: for_loop_Suc coeff_def coeff_set_def del: upt_Suc)
qed

lemma set_b_loop:
  assumes "k + n \<le> length pars" and "n \<le> length (b_m m)"
  shows "for_loop [0..<n]
           (\<lambda>p (m, k). do { x \<leftarrow> coeff pars k; b' \<leftarrow> coeff_set (b_m m) p x;
                             Some (m\<lparr>b_m := b'\<rparr>, k + 1) }) (m, k)
         = Some (m\<lparr>b_m := seq_written (b_m m) 0 n (\<lambda>p. pars ! (k + p))\<rparr>, k + n)"
  using assms
proof (induction n)
  case 0
  then show ?case by simp
next
  case (Suc n)
  then show ?case
    using seq_written_step [of 0 n "b_m m" "\<lambda>p. pars ! (k + p)"]
    by (simp add: for_loop_Suc coeff_def coeff_set_def del: upt_Suc)
qed

lemma set_W_inner:
  assumes "k + c \<le> length pars" and "i < length (W_m m)" and "c \<le> length (W_m m ! i)"
  shows "for_loop [0..<c]
           (\<lambda>j (m, k). do { x \<leftarrow> coeff pars k; W' \<leftarrow> coeff2_set (W_m m) i j x;
                             Some (m\<lparr>W_m := W'\<rparr>, k + 1) }) (m, k)
         = Some (m\<lparr>W_m := (W_m m)[i := seq_written (W_m m ! i) 0 c (\<lambda>j. pars ! (k + j))]\<rparr>, k + c)"
  using assms
proof (induction c)
  case 0
  then show ?case by simp
next
  case (Suc c)
  then show ?case
    using seq_written_step [of 0 c "W_m m ! i" "\<lambda>j. pars ! (k + j)"]
    by (simp add: for_loop_Suc coeff_def coeff_set_def coeff2_set_def del: upt_Suc)
qed

lemma set_W_outer:
  assumes "k + r * c \<le> length pars" and "r \<le> length (W_m m)"
    and "\<And>i. i < r \<Longrightarrow> length (W_m m ! i) = c"
  shows "for_loop [0..<r]
           (\<lambda>i. for_loop [0..<c]
              (\<lambda>j (m, k). do { x \<leftarrow> coeff pars k; W' \<leftarrow> coeff2_set (W_m m) i j x;
                                Some (m\<lparr>W_m := W'\<rparr>, k + 1) })) (m, k)
         = Some (m\<lparr>W_m := seq_written (W_m m) 0 r
                             (\<lambda>i. map (\<lambda>j. pars ! (k + i * c + j)) [0..<c])\<rparr>, k + r * c)"
  using assms
proof (induction r)
  case 0
  then show ?case by simp
next
  case (Suc r)
  let ?m' = "m\<lparr>W_m := seq_written (W_m m) 0 r (\<lambda>i. map (\<lambda>j. pars ! (k + i * c + j)) [0..<c])\<rparr>"
  have IH: "for_loop [0..<r]
           (\<lambda>i. for_loop [0..<c]
              (\<lambda>j (m, k). do { x \<leftarrow> coeff pars k; W' \<leftarrow> coeff2_set (W_m m) i j x;
                                Some (m\<lparr>W_m := W'\<rparr>, k + 1) })) (m, k)
         = Some (?m', k + r * c)"
    using Suc.prems by (intro Suc.IH) auto
  have row: "W_m ?m' ! r = W_m m ! r"
    using Suc.prems by (simp add: nth_seq_written)
  have inner: "for_loop [0..<c]
           (\<lambda>j (m, k). do { x \<leftarrow> coeff pars k; W' \<leftarrow> coeff2_set (W_m m) r j x;
                             Some (m\<lparr>W_m := W'\<rparr>, k + 1) }) (?m', k + r * c)
         = Some (?m'\<lparr>W_m := (W_m ?m')[r := seq_written (W_m ?m' ! r) 0 c (\<lambda>j. pars ! (k + r * c + j))]\<rparr>,
                 k + r * c + c)"
    using Suc.prems row by (intro set_W_inner) auto
  have full: "seq_written (W_m ?m' ! r) 0 c (\<lambda>j. pars ! (k + r * c + j))
      = map (\<lambda>j. pars ! (k + r * c + j)) [0..<c]"
    using Suc.prems row by (intro seq_written_full) auto
  have glue: "(W_m ?m')[r := map (\<lambda>j. pars ! (k + r * c + j)) [0..<c]]
      = seq_written (W_m m) 0 (Suc r) (\<lambda>i. map (\<lambda>j. pars ! (k + i * c + j)) [0..<c])"
    using Suc.prems seq_written_step [of 0 r "W_m m" "\<lambda>i. map (\<lambda>j. pars ! (k + i * c + j)) [0..<c]"]
    by simp
  show ?case
    unfolding for_loop_Suc IH option.case inner full glue
    by (simp add: ac_simps)
qed

lemma SetParameters_unflatten:
  assumes ok: "dims_ok m" and len: "npar_m m \<le> length pars"
  shows "SetParameters pars m = Some (unflatten pars m)"
proof -
  let ?na = "nv_m m * ls_m m"
  let ?m1 = "m\<lparr>a_m := seq_written (a_m m) 0 (off_b m) (\<lambda>k. pars ! k)\<rparr>"
  let ?m2 = "?m1\<lparr>b_m := seq_written (b_m ?m1) 0 (off_W m - off_b m) (\<lambda>p. pars ! (off_b m + p))\<rparr>"
  let ?m3 = "?m2\<lparr>W_m := seq_written (W_m ?m2) 0 (nv_m ?m2 * ls_m ?m2)
                 (\<lambda>i. map (\<lambda>j. pars ! (off_W m + i * nh_m ?m2 + j)) [0..<nh_m ?m2])\<rparr>"
  have np: "npar_m m = off_W m + ?na * nh_m m" and la: "length (a_m m) = ?na"
    and lb: "length (b_m m) = nh_m m" and lW: "length (W_m m) = ?na"
    using ok by (simp_all add: dims_ok_def)
  have A: "(if usea_m m
           then do {
             m' \<leftarrow> for_loop [0..<?na]
                    (\<lambda>k m. do { x \<leftarrow> coeff pars k;
                                 a' \<leftarrow> coeff_set (a_m m) k x;
                                 Some (m\<lparr>a_m := a'\<rparr>) })
                    m;
             Some (m', ?na) }
           else Some (m, 0)) = Some (?m1, off_b m)"
  proof (cases "usea_m m")
    case True
    have "for_loop [0..<?na]
                    (\<lambda>k m. do { x \<leftarrow> coeff pars k;
                                 a' \<leftarrow> coeff_set (a_m m) k x;
                                 Some (m\<lparr>a_m := a'\<rparr>) }) m
        = Some (m\<lparr>a_m := seq_written (a_m m) 0 ?na (\<lambda>k. pars ! k)\<rparr>)"
      using la np len True by (intro set_a_loop) (auto simp: off_W_def off_b_def)
    with True show ?thesis by (simp add: off_b_def)
  next
    case False
    then show ?thesis by (simp add: off_b_def)
  qed
  have B: "(if useb_m ?m1
           then for_loop [0..<nh_m ?m1]
                  (\<lambda>p (m, k). do { x \<leftarrow> coeff pars k;
                                    b' \<leftarrow> coeff_set (b_m m) p x;
                                    Some (m\<lparr>b_m := b'\<rparr>, k + 1) })
                  (?m1, off_b m)
           else Some (?m1, off_b m)) = Some (?m2, off_W m)"
  proof (cases "useb_m m")
    case True
    have "for_loop [0..<nh_m m]
                  (\<lambda>p (m, k). do { x \<leftarrow> coeff pars k;
                                    b' \<leftarrow> coeff_set (b_m m) p x;
                                    Some (m\<lparr>b_m := b'\<rparr>, k + 1) })
                  (?m1, off_b m)
       = Some (?m1\<lparr>b_m := seq_written (b_m ?m1) 0 (nh_m m) (\<lambda>p. pars ! (off_b m + p))\<rparr>, off_b m + nh_m m)"
      using lb np len True by (intro set_b_loop) (auto simp: off_W_def)
    with True show ?thesis by (simp add: off_W_def)
  next
    case False
    then show ?thesis by (simp add: off_W_def)
  qed
  have C: "for_loop [0..<nv_m ?m2 * ls_m ?m2]
            (\<lambda>i. for_loop [0..<nh_m ?m2]
               (\<lambda>j (m, k). do { x \<leftarrow> coeff pars k;
                                 W' \<leftarrow> coeff2_set (W_m m) i j x;
                                 Some (m\<lparr>W_m := W'\<rparr>, k + 1) }))
            (?m2, off_W m) = Some (?m3, off_W m + nv_m ?m2 * ls_m ?m2 * nh_m ?m2)"
    using lW np len dims_ok_row [OF ok] by (intro set_W_outer) auto
  have fin: "?m3 = unflatten pars m"
  proof -
    have a: "seq_written (a_m m) 0 (off_b m) (\<lambda>k. pars ! k)
        = (if usea_m m then map (\<lambda>k. pars ! k) [0..<?na] else a_m m)"
      using la by (simp add: off_b_def seq_written_full)
    have b: "seq_written (b_m m) 0 (off_W m - off_b m) (\<lambda>p. pars ! (off_b m + p))
        = (if useb_m m then map (\<lambda>p. pars ! (off_b m + p)) [0..<nh_m m] else b_m m)"
      using lb by (simp add: off_W_def seq_written_full)
    have W: "seq_written (W_m m) 0 ?na (\<lambda>i. map (\<lambda>j. pars ! (off_W m + i * nh_m m + j)) [0..<nh_m m])
        = map (\<lambda>i. map (\<lambda>j. pars ! (off_W m + i * nh_m m + j)) [0..<nh_m m]) [0..<?na]"
      using lW by (simp add: seq_written_full)
    show ?thesis
      by (simp add: unflatten_def a b W)
  qed
  show ?thesis
    unfolding SetParameters_def Let_def
    by (simp only: A B C fin Option.bind.simps prod.case)
qed

lemma dims_ok_unflatten: "dims_ok m \<Longrightarrow> dims_ok (unflatten pars m)"
  by (auto simp: dims_ok_def unflatten_def off_W_def off_b_def list_all_iff)

lemma flat_at_unflatten:
  assumes "dims_ok m" and "t < npar_m m"
  shows "flat_at (unflatten pars m) t = pars ! t"
proof -
  have np: "npar_m m = off_W m + nv_m m * ls_m m * nh_m m"
    using assms by (simp add: dims_ok_def)
  have offs: "off_b (unflatten pars m) = off_b m" "off_W (unflatten pars m) = off_W m"
    by (simp_all add: unflatten_def off_W_def off_b_def)
  show ?thesis
  proof (cases "t < off_W m")
    case True
    then show ?thesis
      unfolding flat_at_def offs
      by (auto simp: unflatten_def off_W_def off_b_def split: if_splits)
  next
    case False
    define q where "q = t - off_W m"
    have q: "q < nv_m m * ls_m m * nh_m m" and t: "t = off_W m + q"
      using False assms(2) np by (simp_all add: q_def)
    then have c: "0 < nh_m m" by (cases "nh_m m") auto
    have qd: "q div nh_m m < nv_m m * ls_m m"
      using q c by (simp add: less_mult_imp_div_less)
    have qm: "q mod nh_m m < nh_m m" using c by simp
    have bW: "off_b m \<le> off_W m" by (simp add: off_W_def)
    have "flat_at (unflatten pars m) t
        = W_m (unflatten pars m) ! (q div nh_m m) ! (q mod nh_m m)"
      unfolding flat_at_def offs using False bW by (auto simp: unflatten_def q_def)
    also have "\<dots> = pars ! (off_W m + (q div nh_m m) * nh_m m + q mod nh_m m)"
      using qd qm by (simp add: unflatten_def)
    also have "\<dots> = pars ! t"
      by (simp add: t add.assoc)
    finally show ?thesis .
  qed
qed

section \<open>The parameter vector\<close>

lemma length_concat_rect:
  "list_all (\<lambda>r. length r = c) M \<Longrightarrow> length (concat M) = length M * c"
  by (induction M) auto

lemma nth_concat_rect:
  "list_all (\<lambda>r. length r = c) M \<Longrightarrow> i < length M \<Longrightarrow> j < c \<Longrightarrow> concat M ! (i * c + j) = M ! i ! j"
proof (induction M arbitrary: i)
  case Nil
  then show ?case by simp
next
  case (Cons r M)
  show ?case
  proof (cases i)
    case 0
    with Cons.prems show ?thesis by (simp add: nth_append)
  next
    case (Suc i')
    with Cons.prems have "concat M ! (i' * c + j) = M ! i' ! j"
      by (intro Cons.IH) auto
    with Suc Cons.prems show ?thesis by (simp add: nth_append add.assoc)
  qed
qed

lemma nth_app3: "(A @ B @ C) ! (length A + length B + q) = C ! q"
  by (simp add: nth_append)

lemma flatten_flat_at:
  assumes ok: "dims_ok m"
  shows "map (flat_at m) [0..<npar_m m] = flatten m"
proof (rule nth_equalityI)
  have np: "npar_m m = off_W m + nv_m m * ls_m m * nh_m m" and la: "length (a_m m) = nv_m m * ls_m m"
    and lb: "length (b_m m) = nh_m m" and lW: "length (W_m m) = nv_m m * ls_m m"
    and rows: "list_all (\<lambda>r. length r = nh_m m) (W_m m)"
    using ok by (simp_all add: dims_ok_def)
  have lc: "length (concat (W_m m)) = nv_m m * ls_m m * nh_m m"
    using length_concat_rect [OF rows] lW by simp
  show len: "length (map (flat_at m) [0..<npar_m m]) = length (flatten m)"
    using np la lb lc by (simp add: flatten_def off_W_def off_b_def)
  fix t assume "t < length (map (flat_at m) [0..<npar_m m])"
  then have t: "t < npar_m m" by simp
  have la': "length (if usea_m m then a_m m else []) = off_b m"
    using la by (simp add: off_b_def)
  have lb': "length (if useb_m m then b_m m else []) = off_W m - off_b m"
    using lb by (simp add: off_W_def)
  have bW: "off_b m \<le> off_W m" by (simp add: off_W_def)
  show "map (flat_at m) [0..<npar_m m] ! t = flatten m ! t"
  proof (cases "t < off_W m")
    case True
    then show ?thesis
      using t la' lb' bW
      by (auto simp: flatten_def flat_at_def nth_append off_b_def off_W_def split: if_splits)
  next
    case False
    define q where "q = t - off_W m"
    have q: "q < nv_m m * ls_m m * nh_m m" and tq: "t = off_W m + q"
      using False t np by (simp_all add: q_def)
    then have c: "0 < nh_m m" by (cases "nh_m m") auto
    have qd: "q div nh_m m < length (W_m m)"
      using q c lW by (simp add: less_mult_imp_div_less)
    have "concat (W_m m) ! ((q div nh_m m) * nh_m m + q mod nh_m m) = W_m m ! (q div nh_m m) ! (q mod nh_m m)"
      using rows qd c by (intro nth_concat_rect) auto
    then have cq: "concat (W_m m) ! q = W_m m ! (q div nh_m m) ! (q mod nh_m m)"
      by simp
    have "t = length (if usea_m m then a_m m else []) + length (if useb_m m then b_m m else []) + q"
      unfolding la' lb' using tq bW by simp
    then have "flatten m ! t = concat (W_m m) ! q"
      unfolding flatten_def by (simp only: nth_app3)
    moreover have "flat_at m t = W_m m ! (q div nh_m m) ! (q mod nh_m m)"
      using False bW by (auto simp: flat_at_def q_def)
    ultimately show ?thesis using t cq by simp
  qed
qed

lemma GetParameters_flatten:
  "dims_ok m \<Longrightarrow> GetParameters fresh m = Some (flatten m)"
  by (simp add: GetParameters_flat flatten_flat_at)

lemma Init_fields:
  assumes "Init st m0 = Some m"
  shows "nv_m m = nv_m m0" "ls_m m = ls_m m0" "nh_m m = nh_m m0" "usea_m m = usea_m m0"
    "useb_m m = useb_m m0" "hilbert_m m = hilbert_m m0"
    "W_m m = resize2 (nv_m m0 * ls_m m0) (nh_m m0) (st_W st)"
    "a_m m = (if usea_m m0 then resize (nv_m m0 * ls_m m0) (st_a st) else replicate (nv_m m0 * ls_m m0) 0)"
    "b_m m = (if useb_m m0 then resize (nh_m m0) (st_b st) else replicate (nh_m m0) 0)"
    "npar_m m = nv_m m0 * nh_m m0 * ls_m m0 + (if usea_m m0 then nv_m m0 * ls_m m0 else 0)
        + (if useb_m m0 then nh_m m0 else 0)"
  using assms
  by (auto simp: Init_def Let_def bind_eq_Some_conv setZero_def resize_def)

lemma Init_dims_ok:
  assumes "Init st m0 = Some m"
  shows "dims_ok m"
  unfolding dims_ok_def off_W_def off_b_def Init_fields [OF assms]
  by (auto simp: resize_def resize2_def list_all_iff)

section \<open>Init\<close>

lemma for_loop_map: "for_loop (map h xs) body s = for_loop xs (\<lambda>x. body (h x)) s"
  by (induction xs arbitrary: s) (auto split: option.splits)

lemma upt_block: "[0..<Suc nv * ls] = [0..<nv * ls] @ [nv * ls..<nv * ls + ls]"
proof -
  have "[0..<nv * ls + ls] = [0..<nv * ls] @ [nv * ls..<nv * ls + ls]"
    by (rule upt_add_eq_append) simp
  then show ?thesis by (simp only: mult_Suc add.commute)
qed

lemma stride_block:
  assumes "0 < ls"
  shows "filter (\<lambda>i. i mod ls = 0) [nv * ls..<nv * ls + ls] = [nv * ls]"
proof -
  have "[nv * ls..<nv * ls + ls] = map (\<lambda>d. nv * ls + d) [0..<ls]"
    by (simp add: map_add_upt add.commute)
  also have "filter (\<lambda>i. i mod ls = 0) \<dots> = map (\<lambda>d. nv * ls + d) (filter (\<lambda>d. d = 0) [0..<ls])"
    unfolding filter_map by (rule arg_cong [where f = "map _"], rule filter_cong) auto
  also have "filter (\<lambda>d. d = 0) [0..<ls] = [0]"
    using assms by (induction ls) auto
  finally show ?thesis by simp
qed

lemma stride_upt:
  assumes "0 < ls"
  shows "filter (\<lambda>i. i mod ls = 0) [0..<nv * ls] = map (\<lambda>q. q * ls) [0..<nv]"
proof (induction nv)
  case 0
  then show ?case by simp
next
  case (Suc nv)
  have "filter (\<lambda>i. i mod ls = 0) [0..<Suc nv * ls]
      = filter (\<lambda>i. i mod ls = 0) [0..<nv * ls] @ filter (\<lambda>i. i mod ls = 0) [nv * ls..<nv * ls + ls]"
    unfolding upt_block by simp
  also have "\<dots> = map (\<lambda>q. q * ls) [0..<nv] @ [nv * ls]"
    unfolding Suc.IH stride_block [OF assms] ..
  finally show ?case by simp
qed

lemma loop_write_off:
  assumes "\<And>p. p < n \<Longrightarrow> g p = Some (f p)" and "k + n \<le> length xs"
  shows "for_loop [0..<n] (\<lambda>j xs. do { x \<leftarrow> g j; coeff_set xs (k + j) x }) xs
           = Some (seq_written xs k n f)"
  using assms
proof (induction n)
  case 0
  then show ?case by simp
next
  case (Suc n)
  then show ?case
    using seq_written_step [of k n xs f]
    by (simp add: for_loop_Suc coeff_set_def del: upt_Suc)
qed

lemma fill_localconfs_eq:
  assumes "ls \<le> length lst" and "nv * ls \<le> length lc"
  shows "fill_localconfs nv ls lst lc = Some (seq_written lc 0 (nv * ls) (\<lambda>t. lst ! (t mod ls)))"
proof (cases "ls = 0")
  case True
  then show ?thesis by (simp add: fill_localconfs_def)
next
  case False
  then have pos: "0 < ls" by simp
  have "for_loop [0..<nv]
          (\<lambda>q. for_loop [0..<ls] (\<lambda>j lc'. do { x \<leftarrow> coeff lst j; coeff_set lc' (q * ls + j) x })) lc
        = Some (seq_written lc 0 (nv * ls) (\<lambda>t. lst ! (t mod ls)))"
    using assms(2)
  proof (induction nv)
    case 0
    then show ?case by simp
  next
    case (Suc nv)
    let ?G = "\<lambda>t. lst ! (t mod ls)"
    have IH: "for_loop [0..<nv]
          (\<lambda>q. for_loop [0..<ls] (\<lambda>j lc'. do { x \<leftarrow> coeff lst j; coeff_set lc' (q * ls + j) x })) lc
        = Some (seq_written lc 0 (nv * ls) ?G)"
      using Suc.prems by (intro Suc.IH) auto
    have inner: "for_loop [0..<ls] (\<lambda>j lc'. do { x \<leftarrow> coeff lst j; coeff_set lc' (nv * ls + j) x })
          (seq_written lc 0 (nv * ls) ?G)
        = Some (seq_written (seq_written lc 0 (nv * ls) ?G) (nv * ls) ls (\<lambda>j. lst ! j))"
      using Suc.prems assms(1) by (intro loop_write_off) (auto simp: coeff_def)
    have glue: "seq_written (seq_written lc 0 (nv * ls) ?G) (0 + nv * ls) ls (\<lambda>j. lst ! j)
        = seq_written lc 0 (nv * ls + ls) ?G"
      by (rule seq_written_seq) simp
    show ?case
      unfolding for_loop_Suc IH option.case inner
      using glue by (simp only: add_0 mult_Suc add.commute [of ls])
  qed
  then show ?thesis
    by (simp add: fill_localconfs_def stride_upt [OF pos] for_loop_map)
qed

lemma loop_mask:
  assumes "n \<le> length mk" and "\<And>i. i < n \<Longrightarrow> h i < length (mk ! i)"
  shows "for_loop [0..<n] (\<lambda>i mk'. coeff2_set mk' i (h i) (1::real)) mk
           = Some (seq_written mk 0 n (\<lambda>i. (mk ! i)[h i := 1]))"
  using assms
proof (induction n)
  case 0
  then show ?case by simp
next
  case (Suc n)
  have IH: "for_loop [0..<n] (\<lambda>i mk'. coeff2_set mk' i (h i) (1::real)) mk
           = Some (seq_written mk 0 n (\<lambda>i. (mk ! i)[h i := 1]))"
    using Suc.prems by (intro Suc.IH) auto
  have row: "seq_written mk 0 n (\<lambda>i. (mk ! i)[h i := 1]) ! n = mk ! n"
    using Suc.prems by (simp add: nth_seq_written)
  have "coeff2_set (seq_written mk 0 n (\<lambda>i. (mk ! i)[h i := 1])) n (h n) 1
      = Some ((seq_written mk 0 n (\<lambda>i. (mk ! i)[h i := 1]))[0 + n := (mk ! n)[h n := 1]])"
    using Suc.prems row by (simp add: coeff2_set_def coeff_def coeff_set_def)
  also have "\<dots> = Some (seq_written mk 0 (Suc n) (\<lambda>i. (mk ! i)[h i := 1]))"
    using Suc.prems by (subst seq_written_step) auto
  finally show ?case
    unfolding for_loop_Suc IH option.case .
qed

lemma fill_mask_eq:
  "fill_mask nv ls (setZero2 (resize2 (nv * ls) nv (\<lambda>i j. 0)))
     = Some (map (\<lambda>i. (replicate nv 0)[i div ls := 1]) [0..<nv * ls])"
proof -
  let ?Z = "setZero2 (resize2 (nv * ls) nv (\<lambda>i j. 0::real))"
  have Z: "?Z = replicate (nv * ls) (replicate nv 0)"
    by (simp add: setZero2_def setZero_def resize2_def map_replicate_const)
  have col: "i div ls < nv" if "i < nv * ls" for i
    using that by (simp add: less_mult_imp_div_less)
  have "for_loop [0..<nv * ls] (\<lambda>i mk'. coeff2_set mk' i (i div ls) (1::real)) ?Z
      = Some (seq_written ?Z 0 (nv * ls) (\<lambda>i. (?Z ! i)[i div ls := 1]))"
    using col by (intro loop_mask) (auto simp: Z)
  moreover have "seq_written ?Z 0 (nv * ls) (\<lambda>i. (?Z ! i)[i div ls := 1])
      = map (\<lambda>i. (?Z ! i)[i div ls := 1]) [0..<nv * ls]"
    by (rule seq_written_full) (simp add: Z)
  moreover have "map (\<lambda>i. (?Z ! i)[i div ls := 1]) [0..<nv * ls]
      = map (\<lambda>i. (replicate nv 0)[i div ls := 1]) [0..<nv * ls]"
    by (rule map_cong) (auto simp: Z)
  ultimately show ?thesis by (simp add: fill_mask_def)
qed

lemma fill_confindex_inv:
  assumes "n \<le> length lst"
  shows "\<exists>ci'. for_loop [0..<n] (\<lambda>i ci'. do { x \<leftarrow> coeff lst i; Some (ci'(x \<mapsto> i)) }) ci = Some ci'
           \<and> (distinct lst \<longrightarrow> (\<forall>j<n. ci' (lst ! j) = Some j))"
  using assms
proof (induction n)
  case 0
  then show ?case by simp
next
  case (Suc n)
  from Suc.prems have "n \<le> length lst" by simp
  from Suc.IH [OF this]
  obtain ci' where ci': "for_loop [0..<n] (\<lambda>i ci'. do { x \<leftarrow> coeff lst i; Some (ci'(x \<mapsto> i)) }) ci = Some ci'"
    and inv: "distinct lst \<longrightarrow> (\<forall>j<n. ci' (lst ! j) = Some j)"
    by blast
  have "distinct lst \<longrightarrow> (\<forall>j<Suc n. (ci'(lst ! n \<mapsto> n)) (lst ! j) = Some j)"
    using inv Suc.prems by (auto simp: less_Suc_eq nth_eq_iff_index_eq)
  then show ?case
    unfolding for_loop_Suc ci' option.case using Suc.prems by (simp add: coeff_def)
qed

lemma Init_total:
  assumes "ls_m m0 \<le> length (LocalStates (hilbert_m m0))"
  shows "\<exists>m. Init st m0 = Some m"
proof -
  have lc: "\<exists>lc. fill_localconfs (nv_m m0) (ls_m m0) (LocalStates (hilbert_m m0))
      (resize (nv_m m0 * ls_m m0) (st_localconfs st)) = Some lc"
    using assms by (subst fill_localconfs_eq) (auto simp: resize_def)
  obtain ci where "fill_confindex (ls_m m0) (LocalStates (hilbert_m m0)) (confindex_m m0) = Some ci"
    using fill_confindex_inv [OF assms, of "confindex_m m0"] by (auto simp: fill_confindex_def)
  with lc show ?thesis
    by (auto simp: Init_def Let_def fill_mask_eq)
qed

lemma Init_tables_ok:
  assumes init: "Init st m0 = Some m"
    and len: "length (LocalStates (hilbert_m m0)) = ls_m m0"
    and dist: "distinct (LocalStates (hilbert_m m0))"
  shows "tables_ok m"
proof -
  let ?lst = "LocalStates (hilbert_m m0)"
  from init obtain lc mk ci where
    lc: "fill_localconfs (nv_m m0) (ls_m m0) ?lst (resize (nv_m m0 * ls_m m0) (st_localconfs st)) = Some lc"
    and mk: "fill_mask (nv_m m0) (ls_m m0) (setZero2 (resize2 (nv_m m0 * ls_m m0) (nv_m m0) (\<lambda>i j. 0))) = Some mk"
    and ci: "fill_confindex (ls_m m0) ?lst (confindex_m m0) = Some ci"
    and fields: "localconfs_m m = lc" "mask_m m = mk" "confindex_m m = ci"
      "nv_m m = nv_m m0" "ls_m m = ls_m m0" "hilbert_m m = hilbert_m m0"
    by (auto simp: Init_def Let_def bind_eq_Some_conv)
  have "lc = seq_written (resize (nv_m m0 * ls_m m0) (st_localconfs st)) 0 (nv_m m0 * ls_m m0)
      (\<lambda>t. ?lst ! (t mod ls_m m0))"
    using lc len by (subst (asm) fill_localconfs_eq) (auto simp: resize_def)
  then have lc': "lc = map (\<lambda>t. ?lst ! (t mod ls_m m0)) [0..<nv_m m0 * ls_m m0]"
    by (simp add: seq_written_full resize_def)
  have mk': "mk = map (\<lambda>i. (replicate (nv_m m0) 0)[i div ls_m m0 := 1]) [0..<nv_m m0 * ls_m m0]"
    using mk by (simp add: fill_mask_eq)
  have "\<forall>j<ls_m m0. ci (?lst ! j) = Some j"
    using fill_confindex_inv [of "ls_m m0" ?lst "confindex_m m0"] ci len dist
    by (auto simp: fill_confindex_def)
  then have ci': "map ci ?lst = map Some [0..<ls_m m0]"
    using len by (intro nth_equalityI) auto
  show ?thesis
    unfolding tables_ok_def fields using len dist lc' mk' ci' by simp
qed

section \<open>ComputeVtilde and ComputeTheta\<close>

lemma sum_list_upt: "sum_list (map f [0..<n]) = (\<Sum>i<n. f i)"
  by (simp add: interv_sum_list_conv_sum_set_nat atLeast0LessThan)

lemma unit_row_dot:
  assumes "k < n"
  shows "sum_list (map (\<lambda>c. (replicate n (0::real))[k := 1] ! c * v ! c) [0..<n]) = v ! k"
proof -
  have "(\<Sum>c<n. (replicate n (0::real))[k := 1] ! c * v ! c) = (\<Sum>c<n. if k = c then v ! c else 0)"
    by (rule sum.cong) (auto simp: nth_list_update)
  also have "\<dots> = v ! k" using assms by simp
  finally show ?thesis by (simp add: sum_list_upt)
qed

lemma ComputeVtilde_encode:
  assumes "tables_ok m" and "length v = nv_m m"
  shows "ComputeVtilde v m = Some (encode m v)"
proof -
  let ?n = "nv_m m * ls_m m"
  have lc: "localconfs_m m = map (\<lambda>t. LocalStates (hilbert_m m) ! (t mod ls_m m)) [0..<?n]"
    and mk: "mask_m m = map (\<lambda>i. (replicate (nv_m m) 0)[i div ls_m m := 1]) [0..<?n]"
    using assms(1) by (simp_all add: tables_ok_def)
  have guard: "length v = nv_m m \<and> list_all (\<lambda>r. length r = nv_m m) (mask_m m)
      \<and> length (localconfs_m m) = length (mask_m m)"
    using assms(2) by (simp add: lc mk list_all_iff)
  have mv: "mat_vec (mask_m m) v = map (\<lambda>i. v ! (i div ls_m m)) [0..<?n]"
  proof -
    have "sum_list (map (\<lambda>c. (replicate (nv_m m) (0::real))[i div ls_m m := 1] ! c * v ! c) [0..<length v])
        = v ! (i div ls_m m)" if "i < ?n" for i
      unfolding assms(2) using that by (intro unit_row_dot) (simp add: less_mult_imp_div_less)
    then show ?thesis
      by (simp add: mat_vec_def mk)
  qed
  have "map2 (\<lambda>x y. if x = y then 1 else 0) (localconfs_m m) (mat_vec (mask_m m) v) = encode m v"
    unfolding mv lc encode_def by (rule nth_equalityI) auto
  with guard show ?thesis by (simp add: ComputeVtilde_def)
qed

lemma sum_blocks:
  fixes g :: "nat \<Rightarrow> 'a::comm_monoid_add"
  shows "(\<Sum>i<n * k. g i) = (\<Sum>s<n. \<Sum>q<k. g (s * k + q))"
proof (induction n)
  case 0
  then show ?case by simp
next
  case (Suc n)
  have "(\<Sum>i<Suc n * k. g i) = (\<Sum>i<n * k. g i) + (\<Sum>i = n * k..<n * k + k. g i)"
  proof -
    have "{..<Suc n * k} = {..<n * k} \<union> {n * k..<n * k + k}" by auto
    moreover have "{..<n * k} \<inter> {n * k..<n * k + k} = {}" by auto
    ultimately show ?thesis by (simp add: sum.union_disjoint)
  qed
  also have "(\<Sum>i = n * k..<n * k + k. g i) = (\<Sum>q<k. g (n * k + q))"
    using sum.shift_bounds_nat_ivl [of g 0 "n * k" k]
    by (simp add: atLeast0LessThan add.commute)
  finally show ?case using Suc.IH by simp
qed

lemma block_index_less:
  assumes "s < n" and "q < k"
  shows "s * k + q < n * (k::nat)"
proof -
  have "s * k + q < Suc s * k" using assms(2) by simp
  also have "Suc s * k \<le> n * k" using assms(1) by (intro mult_le_mono1) simp
  finally show ?thesis .
qed

lemma legal_index:
  assumes "tables_ok m" and "x \<in> set (LocalStates (hilbert_m m))"
  shows "confindex_at x m = (index_of m x, m)" and "index_of m x < ls_m m"
    and "LocalStates (hilbert_m m) ! index_of m x = x"
proof -
  let ?lst = "LocalStates (hilbert_m m)"
  have len: "length ?lst = ls_m m" and ci: "map (confindex_m m) ?lst = map Some [0..<ls_m m]"
    using assms(1) by (simp_all add: tables_ok_def)
  from assms(2) obtain q where q: "q < ls_m m" "?lst ! q = x"
    using len by (auto simp: in_set_conv_nth)
  have "map (confindex_m m) ?lst ! q = map Some [0..<ls_m m] ! q"
    using ci by simp
  then have c: "confindex_m m x = Some q"
    using q len by simp
  then show "confindex_at x m = (index_of m x, m)"
    by (simp add: index_of_def confindex_at_def)
  from c have "index_of m x = q" by (simp add: index_of_def confindex_at_def)
  with q show "index_of m x < ls_m m" and "?lst ! index_of m x = x" by simp_all
qed

lemma one_hot_block:
  assumes ok: "tables_ok m" and x: "x \<in> set (LocalStates (hilbert_m m))"
  shows "(\<Sum>q<ls_m m. w q * complex_of_real (if LocalStates (hilbert_m m) ! q = x then 1 else 0))
           = w (index_of m x)"
proof -
  let ?lst = "LocalStates (hilbert_m m)"
  have len: "length ?lst = ls_m m" and dist: "distinct ?lst"
    using ok by (simp_all add: tables_ok_def)
  note idx = legal_index(2,3) [OF ok x]
  have "(?lst ! q = x) = (q = index_of m x)" if "q < ls_m m" for q
    using that idx len dist by (auto simp: nth_eq_iff_index_eq)
  then have "(\<Sum>q<ls_m m. w q * complex_of_real (if ?lst ! q = x then 1 else 0))
      = (\<Sum>q<ls_m m. if q = index_of m x then w q else 0)"
    by (intro sum.cong) auto
  also have "\<dots> = w (index_of m x)" using idx(1) by simp
  finally show ?thesis .
qed

lemma legal_conf_nth:
  "legal_conf m v \<Longrightarrow> s < nv_m m \<Longrightarrow> v ! s \<in> set (LocalStates (hilbert_m m))"
  by (simp add: legal_conf_def list_all_length)

lemma ComputeTheta_theta_of:
  assumes ok: "machine_ok m" and legal: "legal_conf m v"
  shows "ComputeTheta v m = Some (theta_of m v, m\<lparr>vtilde_m := encode m v\<rparr>)"
proof -
  have tab: "tables_ok m" and dims: "dims_ok m"
    using ok by (simp_all add: machine_ok_def)
  have lv: "length v = nv_m m" using legal by (simp add: legal_conf_def)
  have vt: "ComputeVtilde v m = Some (encode m v)"
    using tab lv by (rule ComputeVtilde_encode)
  have le: "length (encode m v) = nv_m m * ls_m m" by (simp add: encode_def)
  have guard: "length (W_m m) = length (encode m v) \<and> list_all (\<lambda>r. length r = nh_m m) (W_m m)
        \<and> length (b_m m) = nh_m m"
    using dims le by (simp add: dims_ok_def)
  have tr: "transpose_mat_vec (W_m m) (nh_m m) (encode m v) ! j
      = sum_list (map (\<lambda>s. W_m m ! (ls_m m * s + index_of m (v ! s)) ! j) [0..<nv_m m])"
    if j: "j < nh_m m" for j
  proof -
    let ?lst = "LocalStates (hilbert_m m)"
    let ?g = "\<lambda>i. W_m m ! i ! j * complex_of_real (encode m v ! i)"
    have "transpose_mat_vec (W_m m) (nh_m m) (encode m v) ! j = (\<Sum>i<nv_m m * ls_m m. ?g i)"
      using j by (simp add: transpose_mat_vec_def sum_list_upt le)
    also have "\<dots> = (\<Sum>s<nv_m m. \<Sum>q<ls_m m. ?g (s * ls_m m + q))"
      by (rule sum_blocks)
    also have "\<dots> = (\<Sum>s<nv_m m. W_m m ! (ls_m m * s + index_of m (v ! s)) ! j)"
    proof (rule sum.cong)
      fix s assume "s \<in> {..<nv_m m}"
      then have s: "s < nv_m m" by simp
      have "encode m v ! (s * ls_m m + q) = (if ?lst ! q = v ! s then 1 else 0)" if "q < ls_m m" for q
      proof -
        have "s * ls_m m + q < nv_m m * ls_m m"
          using s that by (rule block_index_less)
        then show ?thesis using that by (simp add: encode_def)
      qed
      then have "(\<Sum>q<ls_m m. ?g (s * ls_m m + q))
          = (\<Sum>q<ls_m m. W_m m ! (ls_m m * s + q) ! j * complex_of_real (if ?lst ! q = v ! s then 1 else 0))"
        by (intro sum.cong) (auto simp: mult.commute)
      also have "\<dots> = W_m m ! (ls_m m * s + index_of m (v ! s)) ! j"
        using one_hot_block [OF tab legal_conf_nth [OF legal s], of "\<lambda>q. W_m m ! (ls_m m * s + q) ! j"] .
      finally show "(\<Sum>q<ls_m m. ?g (s * ls_m m + q)) = W_m m ! (ls_m m * s + index_of m (v ! s)) ! j" .
    qed simp
    finally show ?thesis by (simp add: sum_list_upt)
  qed
  have "map2 (+) (transpose_mat_vec (W_m m) (nh_m m) (encode m v)) (b_m m) = theta_of m v"
  proof (rule nth_equalityI)
    show "length (map2 (+) (transpose_mat_vec (W_m m) (nh_m m) (encode m v)) (b_m m)) = length (theta_of m v)"
      using guard by (simp add: transpose_mat_vec_def theta_of_def)
  next
    fix j assume "j < length (map2 (+) (transpose_mat_vec (W_m m) (nh_m m) (encode m v)) (b_m m))"
    then have j: "j < nh_m m" using guard by (simp add: transpose_mat_vec_def)
    have "length (transpose_mat_vec (W_m m) (nh_m m) (encode m v)) = nh_m m"
      by (simp add: transpose_mat_vec_def)
    then show "map2 (+) (transpose_mat_vec (W_m m) (nh_m m) (encode m v)) (b_m m) ! j = theta_of m v ! j"
      using j guard tr [OF j] by (simp add: theta_of_def)
  qed
  with vt guard show ?thesis
    by (simp add: ComputeTheta_def)
qed

section \<open>UpdateLookup\<close>

lemma ext_index_less:
  assumes "tables_ok m" and "sf < nv_m m" and "x \<in> set (LocalStates (hilbert_m m))"
  shows "ls_m m * sf + index_of m x < nv_m m * ls_m m"
  using block_index_less [OF assms(2) legal_index(2) [OF assms(1,3)]]
  by (simp add: mult.commute)

lemma sub_add_row:
  assumes "r1 < length M" "r2 < length M" "length (M ! r1) = length lt" "length (M ! r2) = length lt"
  shows "Option.bind (sub_row lt M r1) (\<lambda>lt'. add_row lt' M r2)
           = Some (map (\<lambda>j. lt ! j - M ! r1 ! j + M ! r2 ! j) [0..<length lt])"
proof -
  have "map2 (+) (map2 (-) lt (M ! r1)) (M ! r2) = map (\<lambda>j. lt ! j - M ! r1 ! j + M ! r2 ! j) [0..<length lt]"
    using assms by (intro nth_equalityI) auto
  with assms show ?thesis
    by (simp add: sub_row_def add_row_def coeff_def)
qed

lemma UpdateLookup_body:
  assumes ok: "machine_ok m" and legal: "legal_conf m v" and valid: "valid_change m tc nc"
    and s: "s < length tc" and lt: "length lt = nh_m m"
  shows "do {
           sf \<leftarrow> coeff tc s;
           x \<leftarrow> coeff v sf;
           let (oldtilde, m) = confindex_at x m;
           y \<leftarrow> coeff nc s;
           let (newtilde, m) = confindex_at y m;
           lt \<leftarrow> sub_row lt (W_m m) (ls_m m * sf + oldtilde);
           lt \<leftarrow> add_row lt (W_m m) (ls_m m * sf + newtilde);
           Some (lt, m) }
         = Some (map (\<lambda>j. lt ! j - W_at m (tc ! s) (v ! (tc ! s)) j + W_at m (tc ! s) (nc ! s) j) [0..<nh_m m], m)"
proof -
  have tab: "tables_ok m" and dims: "dims_ok m"
    using ok by (simp_all add: machine_ok_def)
  have sf: "tc ! s < nv_m m" and ln: "length nc = length tc"
    and y: "nc ! s \<in> set (LocalStates (hilbert_m m))"
    using valid s by (simp_all add: valid_change_def list_all_length)
  have lv: "length v = nv_m m" using legal by (simp add: legal_conf_def)
  have x: "v ! (tc ! s) \<in> set (LocalStates (hilbert_m m))"
    using legal sf by (rule legal_conf_nth)
  note cx = legal_index(1) [OF tab x] and cy = legal_index(1) [OF tab y]
  have lW: "length (W_m m) = nv_m m * ls_m m" using dims by (simp add: dims_ok_def)
  have r1: "ls_m m * tc ! s + index_of m (v ! (tc ! s)) < length (W_m m)"
    and r2: "ls_m m * tc ! s + index_of m (nc ! s) < length (W_m m)"
    unfolding lW using ext_index_less [OF tab sf] x y by simp_all
  have l1: "length (W_m m ! (ls_m m * tc ! s + index_of m (v ! (tc ! s)))) = length lt"
    and l2: "length (W_m m ! (ls_m m * tc ! s + index_of m (nc ! s))) = length lt"
    using dims_ok_row [OF dims] r1 r2 lW lt by simp_all
  show ?thesis
    using s sf lv ln sub_add_row [OF r1 r2 l1 l2]
    by (simp add: coeff_def cx cy W_at_def lt bind_eq_Some_conv)
qed

lemma UpdateLookup_loop:
  assumes ok: "machine_ok m" and legal: "legal_conf m v" and valid: "valid_change m tc nc"
    and lt: "length lt = nh_m m" and n: "n \<le> length tc"
  shows "for_loop [0..<n]
           (\<lambda>s (lt, m). do {
              sf \<leftarrow> coeff tc s;
              x \<leftarrow> coeff v sf;
              let (oldtilde, m) = confindex_at x m;
              y \<leftarrow> coeff nc s;
              let (newtilde, m) = confindex_at y m;
              lt \<leftarrow> sub_row lt (W_m m) (ls_m m * sf + oldtilde);
              lt \<leftarrow> add_row lt (W_m m) (ls_m m * sf + newtilde);
              Some (lt, m) })
           (lt, m)
         = Some (map (\<lambda>j. lt ! j - (\<Sum>s<n. W_at m (tc ! s) (v ! (tc ! s)) j)
                               + (\<Sum>s<n. W_at m (tc ! s) (nc ! s) j)) [0..<nh_m m], m)"
  using n
proof (induction n)
  case 0
  have "map (\<lambda>j. lt ! j) [0..<nh_m m] = lt"
    using lt map_nth [of lt] by simp
  then show ?case by simp
next
  case (Suc n)
  let ?L = "map (\<lambda>j. lt ! j - (\<Sum>s<n. W_at m (tc ! s) (v ! (tc ! s)) j)
                               + (\<Sum>s<n. W_at m (tc ! s) (nc ! s) j)) [0..<nh_m m]"
  have IH: "for_loop [0..<n]
           (\<lambda>s (lt, m). do {
              sf \<leftarrow> coeff tc s;
              x \<leftarrow> coeff v sf;
              let (oldtilde, m) = confindex_at x m;
              y \<leftarrow> coeff nc s;
              let (newtilde, m) = confindex_at y m;
              lt \<leftarrow> sub_row lt (W_m m) (ls_m m * sf + oldtilde);
              lt \<leftarrow> add_row lt (W_m m) (ls_m m * sf + newtilde);
              Some (lt, m) })
           (lt, m) = Some (?L, m)"
    using Suc.prems by (intro Suc.IH) simp
  have lL: "length ?L = nh_m m" by simp
  have sn: "n < length tc" using Suc.prems by simp
  have glue: "map (\<lambda>j. ?L ! j - W_at m (tc ! n) (v ! (tc ! n)) j + W_at m (tc ! n) (nc ! n) j) [0..<nh_m m]
      = map (\<lambda>j. lt ! j - (\<Sum>s<Suc n. W_at m (tc ! s) (v ! (tc ! s)) j)
                               + (\<Sum>s<Suc n. W_at m (tc ! s) (nc ! s) j)) [0..<nh_m m]"
    by (rule map_cong) (auto simp: algebra_simps)
  show ?case
    unfolding for_loop_Suc IH option.case prod.case
    unfolding UpdateLookup_body [OF ok legal valid sn lL] glue ..
qed

lemma UpdateLookup_rows:
  assumes ok: "machine_ok m" and legal: "legal_conf m v" and valid: "valid_change m tc nc"
    and lt: "length lt = nh_m m"
  shows "UpdateLookup v tc nc lt m
         = Some (map (\<lambda>j. lt ! j - rows_removed m v tc j + rows_added m tc nc j) [0..<nh_m m], m)"
proof (cases "tc = []")
  case True
  have "map (\<lambda>j. lt ! j) [0..<nh_m m] = lt"
    using lt map_nth [of lt] by simp
  with True show ?thesis
    by (simp add: UpdateLookup_def rows_removed_def rows_added_def)
next
  case False
  then show ?thesis
    unfolding UpdateLookup_def
    using UpdateLookup_loop [OF ok legal valid lt order_refl]
    by (simp add: rows_removed_def rows_added_def sum_list_upt)
qed

lemma length_apply_changes [simp]: "length (apply_changes v tc nc) = length v"
proof -
  have "length (fold (\<lambda>(sf, y) v'. v'[sf := y]) ps v) = length v" for ps :: "(nat \<times> real) list"
    by (induction ps arbitrary: v) auto
  then show ?thesis by (simp add: apply_changes_def)
qed

lemma apply_changes_other:
  "site \<notin> set tc \<Longrightarrow> apply_changes v tc nc ! site = v ! site"
proof -
  have "site \<notin> fst ` set ps \<Longrightarrow> fold (\<lambda>(sf, y) v'. v'[sf := y]) ps v ! site = v ! site"
    for ps :: "(nat \<times> real) list"
    by (induction ps arbitrary: v) (auto simp: nth_list_update)
  moreover have "fst ` set (zip tc nc) \<subseteq> set tc"
    by (auto dest: set_zip_leftD)
  ultimately show "site \<notin> set tc \<Longrightarrow> apply_changes v tc nc ! site = v ! site"
    unfolding apply_changes_def by blast
qed

lemma apply_changes_Cons:
  "apply_changes v (sf # tc) (y # nc) = apply_changes (v[sf := y]) tc nc"
  by (simp add: apply_changes_def)

lemma apply_changes_site:
  assumes "distinct tc" and "length nc = length tc" and "s < length tc" and "tc ! s < length v"
  shows "apply_changes v tc nc ! (tc ! s) = nc ! s"
  using assms
proof (induction tc arbitrary: nc v s)
  case Nil
  then show ?case by simp
next
  case (Cons sf tc)
  then obtain y nc' where nc: "nc = y # nc'" by (cases nc) auto
  show ?case
  proof (cases s)
    case 0
    have "apply_changes (v[sf := y]) tc nc' ! sf = v[sf := y] ! sf"
      using Cons.prems by (intro apply_changes_other) simp
    with 0 Cons.prems show ?thesis
      by (simp add: nc apply_changes_Cons)
  next
    case (Suc s')
    with Cons.prems nc have "apply_changes (v[sf := y]) tc nc' ! (tc ! s') = nc' ! s'"
      by (intro Cons.IH) auto
    with Suc show ?thesis by (simp add: nc apply_changes_Cons)
  qed
qed

lemma legal_conf_apply_changes:
  assumes "legal_conf m v" and "valid_change m tc nc"
  shows "legal_conf m (apply_changes v tc nc)"
  using assms
proof (induction tc arbitrary: nc v)
  case Nil
  then show ?case by (simp add: apply_changes_def)
next
  case (Cons sf tc)
  then obtain y nc' where nc: "nc = y # nc'"
    by (cases nc) (auto simp: valid_change_def)
  have "legal_conf m (v[sf := y])"
    using Cons.prems unfolding legal_conf_def valid_change_def nc list_all_iff
    by (auto dest: set_update_subset_insert [THEN subsetD])
  moreover have "valid_change m tc nc'"
    using Cons.prems by (simp add: valid_change_def nc)
  ultimately show ?case
    unfolding nc apply_changes_Cons by (rule Cons.IH)
qed

lemma theta_of_nth:
  "j < nh_m m \<Longrightarrow> theta_of m v ! j = (\<Sum>s<nv_m m. W_at m s (v ! s) j) + b_m m ! j"
  by (simp add: theta_of_def W_at_def sum_list_upt)

lemma length_theta_of [simp]: "length (theta_of m v) = nh_m m"
  by (simp add: theta_of_def)

lemma theta_of_apply_changes:
  assumes legal: "legal_conf m v" and valid: "valid_change m tc nc" and dist: "distinct tc"
    and j: "j < nh_m m"
  shows "theta_of m (apply_changes v tc nc) ! j
           = theta_of m v ! j - rows_removed m v tc j + rows_added m tc nc j"
proof -
  let ?v' = "apply_changes v tc nc"
  let ?D = "\<lambda>site. W_at m site (?v' ! site) j - W_at m site (v ! site) j"
  have ln: "length nc = length tc" and sites: "\<And>s. s < length tc \<Longrightarrow> tc ! s < nv_m m"
    using valid by (simp_all add: valid_change_def list_all_length)
  have lv: "length v = nv_m m" using legal by (simp add: legal_conf_def)
  have sub: "set tc \<subseteq> {..<nv_m m}"
    using sites by (auto simp: in_set_conv_nth)
  have "(\<Sum>site<nv_m m. ?D site) = (\<Sum>site\<in>set tc. ?D site)"
    using sub by (intro sum.mono_neutral_right) (auto simp: apply_changes_other)
  also have "\<dots> = (\<Sum>s<length tc. ?D (tc ! s))"
  proof -
    have inj: "inj_on (\<lambda>s. tc ! s) {..<length tc}"
      using dist by (auto simp: inj_on_def nth_eq_iff_index_eq)
    have img: "(\<lambda>s. tc ! s) ` {..<length tc} = set tc"
      by (auto simp: in_set_conv_nth)
    show ?thesis
      using sum.reindex [OF inj, of ?D] by (simp add: img)
  qed
  also have "\<dots> = (\<Sum>s<length tc. W_at m (tc ! s) (nc ! s) j - W_at m (tc ! s) (v ! (tc ! s)) j)"
    using dist ln sites lv by (intro sum.cong) (auto simp: apply_changes_site)
  also have "\<dots> = rows_added m tc nc j - rows_removed m v tc j"
    by (simp add: rows_added_def rows_removed_def sum_list_upt sum_subtractf)
  finally have D: "(\<Sum>site<nv_m m. ?D site) = rows_added m tc nc j - rows_removed m v tc j" .
  have "(\<Sum>site<nv_m m. W_at m site (?v' ! site) j)
      = (\<Sum>site<nv_m m. W_at m site (v ! site) j) + (\<Sum>site<nv_m m. ?D site)"
    by (simp add: sum.distrib [symmetric])
  with D j show ?thesis
    by (simp add: theta_of_nth)
qed

lemma UpdateLookup_theta_of:
  assumes ok: "machine_ok m" and legal: "legal_conf m v" and valid: "valid_change m tc nc"
    and dist: "distinct tc"
  shows "UpdateLookup v tc nc (theta_of m v) m = Some (theta_of m (apply_changes v tc nc), m)"
proof -
  have "map (\<lambda>j. theta_of m v ! j - rows_removed m v tc j + rows_added m tc nc j) [0..<nh_m m]
      = theta_of m (apply_changes v tc nc)"
    using theta_of_apply_changes [OF legal valid dist]
    by (intro nth_equalityI) auto
  then show ?thesis
    using UpdateLookup_rows [OF ok legal valid length_theta_of] by simp
qed

lemma run_updates_theta_of:
  assumes ok: "machine_ok m" and legal: "legal_conf m v"
    and valid: "list_all (\<lambda>(tc, nc). valid_change m tc nc \<and> distinct tc) us"
  shows "\<exists>v'. run_updates us v (theta_of m v) m = Some (v', theta_of m v', m) \<and> legal_conf m v'"
  using legal valid
proof (induction us arbitrary: v)
  case Nil
  then show ?case by simp
next
  case (Cons u us)
  obtain tc nc where u: "u = (tc, nc)" by (cases u)
  from Cons.prems u have vc: "valid_change m tc nc" and d: "distinct tc"
    and rest: "list_all (\<lambda>(tc, nc). valid_change m tc nc \<and> distinct tc) us"
    by simp_all
  have legal': "legal_conf m (apply_changes v tc nc)"
    using Cons.prems(1) vc by (rule legal_conf_apply_changes)
  from Cons.IH [OF legal' rest] obtain v' where
    "run_updates us (apply_changes v tc nc) (theta_of m (apply_changes v tc nc)) m = Some (v', theta_of m v', m)"
    and "legal_conf m v'" by blast
  then show ?case
    unfolding u by (simp add: UpdateLookup_theta_of [OF ok Cons.prems(1) vc d])
qed

lemma index_of_eq: "index_of m x = (case confindex_m m x of None \<Rightarrow> 0 | Some i \<Rightarrow> i)"
  by (simp add: index_of_def confindex_at_def split: option.splits)

lemma vtilde_update_ok [simp]:
  "machine_ok (m\<lparr>vtilde_m := x\<rparr>) = machine_ok m"
  "legal_conf (m\<lparr>vtilde_m := x\<rparr>) v = legal_conf m v"
  "valid_change (m\<lparr>vtilde_m := x\<rparr>) tc nc = valid_change m tc nc"
  "theta_of (m\<lparr>vtilde_m := x\<rparr>) v = theta_of m v"
  by (simp_all add: machine_ok_def dims_ok_def tables_ok_def legal_conf_def valid_change_def
      theta_of_def index_of_eq off_W_def off_b_def)

lemma InitLookup_theta_of:
  "machine_ok m \<Longrightarrow> legal_conf m v \<Longrightarrow>
   InitLookup v m = Some (theta_of m v, m\<lparr>vtilde_m := encode m v\<rparr>)"
  by (simp add: InitLookup_def ComputeTheta_theta_of)

lemma valid_change_single:
  "s < nv_m m \<Longrightarrow> x \<in> set (LocalStates (hilbert_m m)) \<Longrightarrow> valid_change m [s] [x]"
  by (simp add: valid_change_def)

lemma ex_machine_ok: "machine_ok ex_machine"
  by code_simp

lemma ex_legal: "legal_conf ex_machine [- 1, 1]"
  by code_simp

lemma legal_conf_update:
  "legal_conf m v \<Longrightarrow> s < nv_m m \<Longrightarrow> x \<in> set (LocalStates (hilbert_m m)) \<Longrightarrow> legal_conf m (v[s := x])"
  using legal_conf_apply_changes [of m v "[s]" "[x]"]
  by (simp add: valid_change_single apply_changes_def)

lemma UpdateLookup_single:
  assumes "machine_ok m" and "legal_conf m v" and "s < nv_m m"
    and "x \<in> set (LocalStates (hilbert_m m))" and "length lt = nh_m m"
  shows "UpdateLookup v [s] [x] lt m
           = Some (map (\<lambda>j. lt ! j - W_at m s (v ! s) j + W_at m s x j) [0..<nh_m m], m)"
  using UpdateLookup_rows [OF assms(1,2) valid_change_single [OF assms(3,4)] assms(5)]
  by (simp add: rows_removed_def rows_added_def)

section \<open>LogValDiff\<close>

lemma buffers_update_ok [simp]:
  "machine_ok (m\<lparr>thetas_m := t\<rparr>) = machine_ok m"
  "machine_ok (m\<lparr>thetasnew_m := t\<rparr>) = machine_ok m"
  "legal_conf (m\<lparr>thetas_m := t\<rparr>) v = legal_conf m v"
  "legal_conf (m\<lparr>thetasnew_m := t\<rparr>) v = legal_conf m v"
  "valid_change (m\<lparr>thetas_m := t\<rparr>) tc nc = valid_change m tc nc"
  "valid_change (m\<lparr>thetasnew_m := t\<rparr>) tc nc = valid_change m tc nc"
  "index_of (m\<lparr>thetas_m := t\<rparr>) x = index_of m x"
  "index_of (m\<lparr>thetasnew_m := t\<rparr>) x = index_of m x"
  "index_of (m\<lparr>vtilde_m := r\<rparr>) x = index_of m x"
  by (simp_all add: machine_ok_def dims_ok_def tables_ok_def legal_conf_def valid_change_def
      index_of_eq off_W_def off_b_def)

lemma LogValDiff_body:
  assumes ok: "machine_ok m" and legal: "legal_conf m v" and valid: "valid_change m tck nck"
    and k: "k < length lvd" and kn: "coeff newconf k = Some nck"
    and s: "s < length tck" and tn: "length (thetasnew_m m) = nh_m m"
  shows "do {
           sf \<leftarrow> coeff tck s;
           x \<leftarrow> coeff v sf;
           let (oldtilde, m) = confindex_at x m;
           nck \<leftarrow> coeff newconf k;
           y \<leftarrow> coeff nck s;
           let (newtilde, m) = confindex_at y m;
           d \<leftarrow> coeff lvd k;
           ao \<leftarrow> coeff (a_m m) (ls_m m * sf + oldtilde);
           lvd \<leftarrow> coeff_set lvd k (d - ao);
           d \<leftarrow> coeff lvd k;
           an \<leftarrow> coeff (a_m m) (ls_m m * sf + newtilde);
           lvd \<leftarrow> coeff_set lvd k (d + an);
           tn \<leftarrow> sub_row (thetasnew_m m) (W_m m) (ls_m m * sf + oldtilde);
           let m = m\<lparr>thetasnew_m := tn\<rparr>;
           tn \<leftarrow> add_row (thetasnew_m m) (W_m m) (ls_m m * sf + newtilde);
           let m = m\<lparr>thetasnew_m := tn\<rparr>;
           Some (lvd, m) }
         = Some (lvd[k := lvd ! k - a_at m (tck ! s) (v ! (tck ! s)) + a_at m (tck ! s) (nck ! s)],
                 m\<lparr>thetasnew_m := map (\<lambda>j. thetasnew_m m ! j - W_at m (tck ! s) (v ! (tck ! s)) j
                                               + W_at m (tck ! s) (nck ! s) j) [0..<nh_m m]\<rparr>)"
proof -
  have tab: "tables_ok m" and dims: "dims_ok m"
    using ok by (simp_all add: machine_ok_def)
  have sf: "tck ! s < nv_m m" and ln: "length nck = length tck"
    and y: "nck ! s \<in> set (LocalStates (hilbert_m m))"
    using valid s by (simp_all add: valid_change_def list_all_length)
  have lv: "length v = nv_m m" using legal by (simp add: legal_conf_def)
  have x: "v ! (tck ! s) \<in> set (LocalStates (hilbert_m m))"
    using legal sf by (rule legal_conf_nth)
  note cx = legal_index(1) [OF tab x] and cy = legal_index(1) [OF tab y]
  have lW: "length (W_m m) = nv_m m * ls_m m" and la: "length (a_m m) = nv_m m * ls_m m"
    using dims by (simp_all add: dims_ok_def)
  have r1: "ls_m m * tck ! s + index_of m (v ! (tck ! s)) < nv_m m * ls_m m"
    and r2: "ls_m m * tck ! s + index_of m (nck ! s) < nv_m m * ls_m m"
    using ext_index_less [OF tab sf] x y by simp_all
  have l1: "length (W_m m ! (ls_m m * tck ! s + index_of m (v ! (tck ! s)))) = length (thetasnew_m m)"
    and l2: "length (W_m m ! (ls_m m * tck ! s + index_of m (nck ! s))) = length (thetasnew_m m)"
    using dims_ok_row [OF dims] r1 r2 tn by simp_all
  have sub: "sub_row (thetasnew_m m) (W_m m) (ls_m m * tck ! s + index_of m (v ! (tck ! s)))
      = Some (map2 (-) (thetasnew_m m) (W_m m ! (ls_m m * tck ! s + index_of m (v ! (tck ! s)))))"
    using r1 l1 lW by (simp add: sub_row_def coeff_def)
  have add: "add_row (map2 (-) (thetasnew_m m) (W_m m ! (ls_m m * tck ! s + index_of m (v ! (tck ! s)))))
        (W_m m) (ls_m m * tck ! s + index_of m (nck ! s))
      = Some (map (\<lambda>j. thetasnew_m m ! j - W_at m (tck ! s) (v ! (tck ! s)) j
                                               + W_at m (tck ! s) (nck ! s) j) [0..<nh_m m])"
  proof -
    have "map2 (+) (map2 (-) (thetasnew_m m) (W_m m ! (ls_m m * tck ! s + index_of m (v ! (tck ! s)))))
          (W_m m ! (ls_m m * tck ! s + index_of m (nck ! s)))
        = map (\<lambda>j. thetasnew_m m ! j - W_at m (tck ! s) (v ! (tck ! s)) j
                                               + W_at m (tck ! s) (nck ! s) j) [0..<nh_m m]"
      using l1 l2 tn by (intro nth_equalityI) (auto simp: W_at_def)
    then show ?thesis
      using r2 l1 l2 lW by (simp add: add_row_def coeff_def)
  qed
  show ?thesis
    using s sf lv ln k kn r1 r2 la
    by (simp add: coeff_def coeff_set_def cx cy a_at_def sub add)
qed

lemma at_update_ok [simp]:
  "a_at (m\<lparr>thetasnew_m := t\<rparr>) = a_at m" "W_at (m\<lparr>thetasnew_m := t\<rparr>) = W_at m"
  "a_at (m\<lparr>thetas_m := t\<rparr>) = a_at m" "W_at (m\<lparr>thetas_m := t\<rparr>) = W_at m"
  "a_at (m\<lparr>vtilde_m := r\<rparr>) = a_at m" "W_at (m\<lparr>vtilde_m := r\<rparr>) = W_at m"
  by (simp_all add: a_at_def W_at_def fun_eq_iff)

lemma LogValDiff_inner:
  assumes ok: "machine_ok m" and legal: "legal_conf m v" and valid: "valid_change m tck nck"
    and k: "k < length lvd" and kn: "coeff newconf k = Some nck"
    and tn: "length (thetasnew_m m) = nh_m m" and n: "n \<le> length tck"
  shows "for_loop [0..<n]
           (\<lambda>s (lvd, m). do {
              sf \<leftarrow> coeff tck s;
              x \<leftarrow> coeff v sf;
              let (oldtilde, m) = confindex_at x m;
              nck \<leftarrow> coeff newconf k;
              y \<leftarrow> coeff nck s;
              let (newtilde, m) = confindex_at y m;
              d \<leftarrow> coeff lvd k;
              ao \<leftarrow> coeff (a_m m) (ls_m m * sf + oldtilde);
              lvd \<leftarrow> coeff_set lvd k (d - ao);
              d \<leftarrow> coeff lvd k;
              an \<leftarrow> coeff (a_m m) (ls_m m * sf + newtilde);
              lvd \<leftarrow> coeff_set lvd k (d + an);
              tn \<leftarrow> sub_row (thetasnew_m m) (W_m m) (ls_m m * sf + oldtilde);
              let m = m\<lparr>thetasnew_m := tn\<rparr>;
              tn \<leftarrow> add_row (thetasnew_m m) (W_m m) (ls_m m * sf + newtilde);
              let m = m\<lparr>thetasnew_m := tn\<rparr>;
              Some (lvd, m) })
           (lvd, m)
         = Some (lvd[k := lvd ! k + (\<Sum>s<n. a_at m (tck ! s) (nck ! s) - a_at m (tck ! s) (v ! (tck ! s)))],
                 m\<lparr>thetasnew_m := map (\<lambda>j. thetasnew_m m ! j - (\<Sum>s<n. W_at m (tck ! s) (v ! (tck ! s)) j)
                                               + (\<Sum>s<n. W_at m (tck ! s) (nck ! s) j)) [0..<nh_m m]\<rparr>)"
    (is "for_loop [0..<n] ?body (lvd, m) = Some (?lvd n, ?m n)")
  using n
proof (induction n)
  case 0
  have "map (\<lambda>j. thetasnew_m m ! j) [0..<nh_m m] = thetasnew_m m"
    using tn map_nth [of "thetasnew_m m"] by simp
  then show ?case by simp
next
  case (Suc n)
  have IH: "for_loop [0..<n] ?body (lvd, m) = Some (?lvd n, ?m n)"
    using Suc.prems by (intro Suc.IH) simp
  have sn: "n < length tck" using Suc.prems by simp
  have step: "?body n (?lvd n, ?m n)
      = Some ((?lvd n)[k := ?lvd n ! k - a_at (?m n) (tck ! n) (v ! (tck ! n)) + a_at (?m n) (tck ! n) (nck ! n)],
              (?m n)\<lparr>thetasnew_m := map (\<lambda>j. thetasnew_m (?m n) ! j - W_at (?m n) (tck ! n) (v ! (tck ! n)) j
                                               + W_at (?m n) (tck ! n) (nck ! n) j) [0..<nh_m (?m n)]\<rparr>)"
    unfolding prod.case
    by (rule LogValDiff_body) (use ok legal valid k kn sn in simp_all)
  have g1: "(?lvd n)[k := ?lvd n ! k - a_at (?m n) (tck ! n) (v ! (tck ! n)) + a_at (?m n) (tck ! n) (nck ! n)]
      = ?lvd (Suc n)"
    using k by (simp add: algebra_simps)
  have g2: "(?m n)\<lparr>thetasnew_m := map (\<lambda>j. thetasnew_m (?m n) ! j - W_at (?m n) (tck ! n) (v ! (tck ! n)) j
                                               + W_at (?m n) (tck ! n) (nck ! n) j) [0..<nh_m (?m n)]\<rparr>
      = ?m (Suc n)"
    by (simp add: algebra_simps)
  show ?case
    unfolding for_loop_Suc IH option.case step g1 g2 ..
qed

lemma LogValDiff_outer_body:
  assumes ok: "machine_ok m" and legal: "legal_conf m v"
    and moves: "list_all2 (valid_change m) tochange newconf"
    and th: "thetas_m m = theta_of m v"
    and k: "k < length tochange" and kl: "k < length lvd"
    and m0: "theta_of m0 v = theta_of m v"
  shows "\<exists>X. do {
           tck \<leftarrow> coeff tochange k;
           if length tck \<noteq> 0
           then do {
             let m = m\<lparr>thetasnew_m := thetas_m m\<rparr>;
             (lvd, m) \<leftarrow>
               for_loop [0..<length tck]
                 (\<lambda>s (lvd, m). do {
                    sf \<leftarrow> coeff tck s;
                    x \<leftarrow> coeff v sf;
                    let (oldtilde, m) = confindex_at x m;
                    nck \<leftarrow> coeff newconf k;
                    y \<leftarrow> coeff nck s;
                    let (newtilde, m) = confindex_at y m;
                    d \<leftarrow> coeff lvd k;
                    ao \<leftarrow> coeff (a_m m) (ls_m m * sf + oldtilde);
                    lvd \<leftarrow> coeff_set lvd k (d - ao);
                    d \<leftarrow> coeff lvd k;
                    an \<leftarrow> coeff (a_m m) (ls_m m * sf + newtilde);
                    lvd \<leftarrow> coeff_set lvd k (d + an);
                    tn \<leftarrow> sub_row (thetasnew_m m) (W_m m) (ls_m m * sf + oldtilde);
                    let m = m\<lparr>thetasnew_m := tn\<rparr>;
                    tn \<leftarrow> add_row (thetasnew_m m) (W_m m) (ls_m m * sf + newtilde);
                    let m = m\<lparr>thetasnew_m := tn\<rparr>;
                    Some (lvd, m) })
                 (lvd, m);
             d \<leftarrow> coeff lvd k;
             lvd \<leftarrow> coeff_set lvd k (d + (SumLogCosh (thetasnew_m m) - SumLogCosh (theta_of m0 v)));
             Some (lvd, m) }
           else Some (lvd, m) }
         = Some (lvd[k := lvd ! k + (bias_delta m v (tochange ! k) (newconf ! k)
                                      + SumLogCosh (theta_moved m v (tochange ! k) (newconf ! k))
                                      - SumLogCosh (theta_of m0 v))],
                 m\<lparr>thetasnew_m := X\<rparr>)"
proof -
  let ?tck = "tochange ! k" and ?nck = "newconf ! k"
  have ln: "length newconf = length tochange" and valid: "valid_change m ?tck ?nck"
    using moves k by (simp_all add: list_all2_conv_all_nth)
  have ck: "coeff tochange k = Some ?tck" and cn: "coeff newconf k = Some ?nck"
    using k ln by (simp_all add: coeff_def)
  show ?thesis
  proof (cases "?tck = []")
    case True
    have "theta_moved m v [] ?nck = theta_of m v"
      using map_nth [of "theta_of m v"]
      by (simp add: theta_moved_def rows_removed_def rows_added_def)
    then have "lvd[k := lvd ! k + (bias_delta m v ?tck ?nck + SumLogCosh (theta_moved m v ?tck ?nck)
          - SumLogCosh (theta_of m0 v))] = lvd"
      using True by (simp add: bias_delta_def m0)
    moreover have "m\<lparr>thetasnew_m := thetasnew_m m\<rparr> = m" by simp
    ultimately show ?thesis
      unfolding ck using True by (intro exI [of _ "thetasnew_m m"]) simp
  next
    case False
    let ?m1 = "m\<lparr>thetasnew_m := thetas_m m\<rparr>"
    let ?X = "map (\<lambda>j. thetasnew_m ?m1 ! j - (\<Sum>s<length ?tck. W_at ?m1 (?tck ! s) (v ! (?tck ! s)) j)
                                               + (\<Sum>s<length ?tck. W_at ?m1 (?tck ! s) (?nck ! s) j)) [0..<nh_m ?m1]"
    have inner: "for_loop [0..<length ?tck]
                 (\<lambda>s (lvd, m). do {
                    sf \<leftarrow> coeff ?tck s;
                    x \<leftarrow> coeff v sf;
                    let (oldtilde, m) = confindex_at x m;
                    nck \<leftarrow> coeff newconf k;
                    y \<leftarrow> coeff nck s;
                    let (newtilde, m) = confindex_at y m;
                    d \<leftarrow> coeff lvd k;
                    ao \<leftarrow> coeff (a_m m) (ls_m m * sf + oldtilde);
                    lvd \<leftarrow> coeff_set lvd k (d - ao);
                    d \<leftarrow> coeff lvd k;
                    an \<leftarrow> coeff (a_m m) (ls_m m * sf + newtilde);
                    lvd \<leftarrow> coeff_set lvd k (d + an);
                    tn \<leftarrow> sub_row (thetasnew_m m) (W_m m) (ls_m m * sf + oldtilde);
                    let m = m\<lparr>thetasnew_m := tn\<rparr>;
                    tn \<leftarrow> add_row (thetasnew_m m) (W_m m) (ls_m m * sf + newtilde);
                    let m = m\<lparr>thetasnew_m := tn\<rparr>;
                    Some (lvd, m) })
                 (lvd, ?m1)
        = Some (lvd[k := lvd ! k + (\<Sum>s<length ?tck. a_at ?m1 (?tck ! s) (?nck ! s) - a_at ?m1 (?tck ! s) (v ! (?tck ! s)))],
                ?m1\<lparr>thetasnew_m := ?X\<rparr>)"
      by (rule LogValDiff_inner) (use ok legal valid kl cn th in simp_all)
    have X: "?X = theta_moved m v ?tck ?nck"
      by (simp add: theta_moved_def rows_removed_def rows_added_def sum_list_upt th)
    have b: "(\<Sum>s<length ?tck. a_at ?m1 (?tck ! s) (?nck ! s) - a_at ?m1 (?tck ! s) (v ! (?tck ! s)))
        = bias_delta m v ?tck ?nck"
      by (simp add: bias_delta_def sum_list_upt)
    have ne: "(length ?tck \<noteq> 0) = True" using False by simp
    show ?thesis
      unfolding ck
      apply (intro exI [of _ "theta_moved m v ?tck ?nck"])
      apply (simp only: Option.bind.simps Let_def [of ?m1] ne if_True inner prod.case X b)
      apply (simp add: coeff_def coeff_set_def kl algebra_simps)
      done
  qed
qed

lemma spec_update_ok [simp]:
  "theta_of (m\<lparr>thetas_m := t\<rparr>) v = theta_of m v"
  "theta_of (m\<lparr>thetasnew_m := t\<rparr>) v = theta_of m v"
  "bias_delta (m\<lparr>thetas_m := t\<rparr>) = bias_delta m"
  "bias_delta (m\<lparr>thetasnew_m := t\<rparr>) = bias_delta m"
  "bias_delta (m\<lparr>vtilde_m := r\<rparr>) = bias_delta m"
  "theta_moved (m\<lparr>thetas_m := t\<rparr>) = theta_moved m"
  "theta_moved (m\<lparr>thetasnew_m := t\<rparr>) = theta_moved m"
  "theta_moved (m\<lparr>vtilde_m := r\<rparr>) = theta_moved m"
  by (simp_all add: theta_of_def bias_delta_def theta_moved_def rows_removed_def rows_added_def fun_eq_iff)

lemma valid_change_update_ok [simp]:
  "valid_change (m\<lparr>thetas_m := t\<rparr>) = valid_change m"
  "valid_change (m\<lparr>thetasnew_m := t\<rparr>) = valid_change m"
  "valid_change (m\<lparr>vtilde_m := r\<rparr>) = valid_change m"
  by (simp_all add: fun_eq_iff)

lemma LogValDiff_outer:
  assumes ok: "machine_ok m" and legal: "legal_conf m v"
    and moves: "list_all2 (valid_change m) tochange newconf"
    and th: "thetas_m m = theta_of m v" and m0: "theta_of m0 v = theta_of m v"
    and n: "n \<le> length tochange"
  shows "\<exists>X. for_loop [0..<n]
       (\<lambda>k (lvd, m). do {
          tck \<leftarrow> coeff tochange k;
          if length tck \<noteq> 0
          then do {
            let m = m\<lparr>thetasnew_m := thetas_m m\<rparr>;
            (lvd, m) \<leftarrow>
              for_loop [0..<length tck]
                (\<lambda>s (lvd, m). do {
                   sf \<leftarrow> coeff tck s;
                   x \<leftarrow> coeff v sf;
                   let (oldtilde, m) = confindex_at x m;
                   nck \<leftarrow> coeff newconf k;
                   y \<leftarrow> coeff nck s;
                   let (newtilde, m) = confindex_at y m;
                   d \<leftarrow> coeff lvd k;
                   ao \<leftarrow> coeff (a_m m) (ls_m m * sf + oldtilde);
                   lvd \<leftarrow> coeff_set lvd k (d - ao);
                   d \<leftarrow> coeff lvd k;
                   an \<leftarrow> coeff (a_m m) (ls_m m * sf + newtilde);
                   lvd \<leftarrow> coeff_set lvd k (d + an);
                   tn \<leftarrow> sub_row (thetasnew_m m) (W_m m) (ls_m m * sf + oldtilde);
                   let m = m\<lparr>thetasnew_m := tn\<rparr>;
                   tn \<leftarrow> add_row (thetasnew_m m) (W_m m) (ls_m m * sf + newtilde);
                   let m = m\<lparr>thetasnew_m := tn\<rparr>;
                   Some (lvd, m) })
                (lvd, m);
            d \<leftarrow> coeff lvd k;
            lvd \<leftarrow> coeff_set lvd k (d + (SumLogCosh (thetasnew_m m) - SumLogCosh (theta_of m0 v)));
            Some (lvd, m) }
          else Some (lvd, m) })
       (replicate (length tochange) 0, m)
     = Some (map (\<lambda>k. if k < n then bias_delta m v (tochange ! k) (newconf ! k)
                                      + SumLogCosh (theta_moved m v (tochange ! k) (newconf ! k))
                                      - SumLogCosh (theta_of m0 v) else 0) [0..<length tochange],
             m\<lparr>thetasnew_m := X\<rparr>)"
    (is "\<exists>X. for_loop [0..<n] ?body ?s0 = Some (?L n, m\<lparr>thetasnew_m := X\<rparr>)")
  using n
proof (induction n)
  case 0
  have "?L 0 = replicate (length tochange) 0"
    by (intro nth_equalityI) auto
  moreover have "m\<lparr>thetasnew_m := thetasnew_m m\<rparr> = m" by simp
  ultimately show ?case
    by (intro exI [of _ "thetasnew_m m"]) simp
next
  case (Suc n)
  then obtain X where IH: "for_loop [0..<n] ?body ?s0 = Some (?L n, m\<lparr>thetasnew_m := X\<rparr>)"
    by auto
  let ?mn = "m\<lparr>thetasnew_m := X\<rparr>"
  have sn: "n < length tochange" using Suc.prems by simp
  have "\<exists>X'. ?body n (?L n, ?mn)
      = Some ((?L n)[n := ?L n ! n + (bias_delta ?mn v (tochange ! n) (newconf ! n)
                                      + SumLogCosh (theta_moved ?mn v (tochange ! n) (newconf ! n))
                                      - SumLogCosh (theta_of m0 v))],
              ?mn\<lparr>thetasnew_m := X'\<rparr>)"
    unfolding prod.case
    by (rule LogValDiff_outer_body) (use ok legal moves th m0 sn in simp_all)
  then obtain X' where step: "?body n (?L n, ?mn)
      = Some ((?L n)[n := ?L n ! n + (bias_delta ?mn v (tochange ! n) (newconf ! n)
                                      + SumLogCosh (theta_moved ?mn v (tochange ! n) (newconf ! n))
                                      - SumLogCosh (theta_of m0 v))],
              ?mn\<lparr>thetasnew_m := X'\<rparr>)"
    by blast
  have g1: "(?L n)[n := ?L n ! n + (bias_delta ?mn v (tochange ! n) (newconf ! n)
                                      + SumLogCosh (theta_moved ?mn v (tochange ! n) (newconf ! n))
                                      - SumLogCosh (theta_of m0 v))] = ?L (Suc n)"
    using sn by (intro nth_equalityI) (auto simp: nth_list_update less_Suc_eq)
  have g2: "?mn\<lparr>thetasnew_m := X'\<rparr> = m\<lparr>thetasnew_m := X'\<rparr>" by simp
  show ?case
    unfolding for_loop_Suc IH option.case step g1 g2 by blast
qed

lemma LogValDiff_eq_spec:
  assumes ok: "machine_ok m" and legal: "legal_conf m v"
    and moves: "list_all2 (valid_change m) tochange newconf"
  shows "\<exists>X. LogValDiff SumLogCosh v tochange newconf m
           = Some (LogValDiff_spec SumLogCosh m v tochange newconf,
                   m\<lparr>vtilde_m := encode m v, thetas_m := theta_of m v, thetasnew_m := X\<rparr>)"
proof -
  let ?m1 = "m\<lparr>vtilde_m := encode m v, thetas_m := theta_of m v\<rparr>"
  have ct: "ComputeTheta v m = Some (theta_of m v, m\<lparr>vtilde_m := encode m v\<rparr>)"
    using ok legal by (rule ComputeTheta_theta_of)
  have "\<exists>X. for_loop [0..<length tochange]
       (\<lambda>k (lvd, m). do {
          tck \<leftarrow> coeff tochange k;
          if length tck \<noteq> 0
          then do {
            let m = m\<lparr>thetasnew_m := thetas_m m\<rparr>;
            (lvd, m) \<leftarrow>
              for_loop [0..<length tck]
                (\<lambda>s (lvd, m). do {
                   sf \<leftarrow> coeff tck s;
                   x \<leftarrow> coeff v sf;
                   let (oldtilde, m) = confindex_at x m;
                   nck \<leftarrow> coeff newconf k;
                   y \<leftarrow> coeff nck s;
                   let (newtilde, m) = confindex_at y m;
                   d \<leftarrow> coeff lvd k;
                   ao \<leftarrow> coeff (a_m m) (ls_m m * sf + oldtilde);
                   lvd \<leftarrow> coeff_set lvd k (d - ao);
                   d \<leftarrow> coeff lvd k;
                   an \<leftarrow> coeff (a_m m) (ls_m m * sf + newtilde);
                   lvd \<leftarrow> coeff_set lvd k (d + an);
                   tn \<leftarrow> sub_row (thetasnew_m m) (W_m m) (ls_m m * sf + oldtilde);
                   let m = m\<lparr>thetasnew_m := tn\<rparr>;
                   tn \<leftarrow> add_row (thetasnew_m m) (W_m m) (ls_m m * sf + newtilde);
                   let m = m\<lparr>thetasnew_m := tn\<rparr>;
                   Some (lvd, m) })
                (lvd, m);
            d \<leftarrow> coeff lvd k;
            lvd \<leftarrow> coeff_set lvd k (d + (SumLogCosh (thetasnew_m m) - SumLogCosh (theta_of ?m1 v)));
            Some (lvd, m) }
          else Some (lvd, m) })
       (replicate (length tochange) 0, ?m1)
     = Some (map (\<lambda>k. if k < length tochange then bias_delta ?m1 v (tochange ! k) (newconf ! k)
                                      + SumLogCosh (theta_moved ?m1 v (tochange ! k) (newconf ! k))
                                      - SumLogCosh (theta_of ?m1 v) else 0) [0..<length tochange],
             ?m1\<lparr>thetasnew_m := X\<rparr>)"
    by (rule LogValDiff_outer) (use ok legal moves in simp_all)
  then obtain X where loop: "for_loop [0..<length tochange]
       (\<lambda>k (lvd, m). do {
          tck \<leftarrow> coeff tochange k;
          if length tck \<noteq> 0
          then do {
            let m = m\<lparr>thetasnew_m := thetas_m m\<rparr>;
            (lvd, m) \<leftarrow>
              for_loop [0..<length tck]
                (\<lambda>s (lvd, m). do {
                   sf \<leftarrow> coeff tck s;
                   x \<leftarrow> coeff v sf;
                   let (oldtilde, m) = confindex_at x m;
                   nck \<leftarrow> coeff newconf k;
                   y \<leftarrow> coeff nck s;
                   let (newtilde, m) = confindex_at y m;
                   d \<leftarrow> coeff lvd k;
                   ao \<leftarrow> coeff (a_m m) (ls_m m * sf + oldtilde);
                   lvd \<leftarrow> coeff_set lvd k (d - ao);
                   d \<leftarrow> coeff lvd k;
                   an \<leftarrow> coeff (a_m m) (ls_m m * sf + newtilde);
                   lvd \<leftarrow> coeff_set lvd k (d + an);
                   tn \<leftarrow> sub_row (thetasnew_m m) (W_m m) (ls_m m * sf + oldtilde);
                   let m = m\<lparr>thetasnew_m := tn\<rparr>;
                   tn \<leftarrow> add_row (thetasnew_m m) (W_m m) (ls_m m * sf + newtilde);
                   let m = m\<lparr>thetasnew_m := tn\<rparr>;
                   Some (lvd, m) })
                (lvd, m);
            d \<leftarrow> coeff lvd k;
            lvd \<leftarrow> coeff_set lvd k (d + (SumLogCosh (thetasnew_m m) - SumLogCosh (theta_of ?m1 v)));
            Some (lvd, m) }
          else Some (lvd, m) })
       (replicate (length tochange) 0, ?m1)
     = Some (map (\<lambda>k. if k < length tochange then bias_delta ?m1 v (tochange ! k) (newconf ! k)
                                      + SumLogCosh (theta_moved ?m1 v (tochange ! k) (newconf ! k))
                                      - SumLogCosh (theta_of ?m1 v) else 0) [0..<length tochange],
             ?m1\<lparr>thetasnew_m := X\<rparr>)"
    by blast
  have spec: "map (\<lambda>k. if k < length tochange then bias_delta ?m1 v (tochange ! k) (newconf ! k)
                                      + SumLogCosh (theta_moved ?m1 v (tochange ! k) (newconf ! k))
                                      - SumLogCosh (theta_of ?m1 v) else 0) [0..<length tochange]
      = LogValDiff_spec SumLogCosh m v tochange newconf"
    unfolding LogValDiff_spec_def by (rule map_cong) simp_all
  have th1: "thetas_m ?m1 = theta_of ?m1 v" by simp
  show ?thesis
    unfolding LogValDiff_def ct
    apply (intro exI [of _ X])
    apply (simp only: Option.bind.simps prod.case Let_def [of "length tochange"]
        Let_def [of "replicate (length tochange) 0"] Let_def [of ?m1]
        Let_def [of "\<lambda>x. SumLogCosh (thetas_m ?m1)"] Let_def [of "SumLogCosh (thetas_m ?m1)"])
    apply (simp only: th1 loop spec)
    done
qed

section \<open>The frame of LogValDiff\<close>

lemma for_loop_invariant:
  assumes "for_loop xs body s = Some s'" and "P s"
    and "\<And>i s s'. i \<in> set xs \<Longrightarrow> P s \<Longrightarrow> body i s = Some s' \<Longrightarrow> P s'"
  shows "P s'"
  using assms
proof (induction xs arbitrary: s)
  case Nil
  then show ?case by simp
next
  case (Cons i xs)
  from Cons.prems(1) obtain s1 where b: "body i s = Some s1" and r: "for_loop xs body s1 = Some s'"
    by (auto split: option.splits)
  have "P s1" using Cons.prems(3) [OF _ Cons.prems(2) b] by simp
  moreover have "P t'" if "j \<in> set xs" "P t" "body j t = Some t'" for j t t'
    using Cons.prems(3) [of j t t'] that by simp
  ultimately show ?case using r by (intro Cons.IH [of s1])
qed

lemma buffers_only_refl [simp]: "buffers_only m m"
  by (simp add: buffers_only_def)

lemma buffers_only_trans: "buffers_only m m1 \<Longrightarrow> buffers_only m1 m2 \<Longrightarrow> buffers_only m m2"
  by (simp add: buffers_only_def)

lemma buffers_only_confindex_at:
  "confindex_at x m = (i, m') \<Longrightarrow> buffers_only m m'"
proof (cases "confindex_m m x")
  case None
  assume "confindex_at x m = (i, m')"
  with None have m': "m' = m\<lparr>confindex_m := (confindex_m m)(x \<mapsto> 0)\<rparr>"
    by (simp add: confindex_at_def)
  have "index_of m' y = index_of m y" for y
    using None by (cases "y = x") (simp_all add: m' index_of_eq)
  then show ?thesis by (simp add: buffers_only_def m')
next
  case (Some q)
  assume "confindex_at x m = (i, m')"
  with Some show ?thesis by (simp add: confindex_at_def)
qed

lemma buffers_only_update [simp]:
  "buffers_only m (m'\<lparr>thetas_m := t\<rparr>) = buffers_only m m'"
  "buffers_only m (m'\<lparr>thetasnew_m := t\<rparr>) = buffers_only m m'"
  "buffers_only m (m'\<lparr>vtilde_m := r\<rparr>) = buffers_only m m'"
  by (simp_all add: buffers_only_def)

lemma buffers_only_ComputeTheta:
  "ComputeTheta v m = Some (th, m') \<Longrightarrow> buffers_only m m'"
  by (auto simp: ComputeTheta_def Let_def bind_eq_Some_conv split: if_splits)

lemma LogValDiff_body_frame:
  "case do {
           sf \<leftarrow> coeff tck s;
           x \<leftarrow> coeff v sf;
           let (oldtilde, m) = confindex_at x m;
           nck \<leftarrow> coeff newconf k;
           y \<leftarrow> coeff nck s;
           let (newtilde, m) = confindex_at y m;
           d \<leftarrow> coeff lvd k;
           ao \<leftarrow> coeff (a_m m) (ls_m m * sf + oldtilde);
           lvd \<leftarrow> coeff_set lvd k (d - ao);
           d \<leftarrow> coeff lvd k;
           an \<leftarrow> coeff (a_m m) (ls_m m * sf + newtilde);
           lvd \<leftarrow> coeff_set lvd k (d + an);
           tn \<leftarrow> sub_row (thetasnew_m m) (W_m m) (ls_m m * sf + oldtilde);
           let m = m\<lparr>thetasnew_m := tn\<rparr>;
           tn \<leftarrow> add_row (thetasnew_m m) (W_m m) (ls_m m * sf + newtilde);
           let m = m\<lparr>thetasnew_m := tn\<rparr>;
           Some (lvd, m) } of
     None \<Rightarrow> True
   | Some (lvd', m') \<Rightarrow>
       buffers_only m m' \<and> length lvd' = length lvd \<and> (\<forall>i. i \<noteq> k \<longrightarrow> lvd' ! i = lvd ! i)"
  by (auto simp: Let_def coeff_set_def split: bind_split prod.split
      dest!: buffers_only_confindex_at intro: buffers_only_trans)

lemma LogValDiff_inner_frame:
  assumes "for_loop xs
             (\<lambda>s (lvd, m). do {
                   sf \<leftarrow> coeff tck s;
                   x \<leftarrow> coeff v sf;
                   let (oldtilde, m) = confindex_at x m;
                   nck \<leftarrow> coeff newconf k;
                   y \<leftarrow> coeff nck s;
                   let (newtilde, m) = confindex_at y m;
                   d \<leftarrow> coeff lvd k;
                   ao \<leftarrow> coeff (a_m m) (ls_m m * sf + oldtilde);
                   lvd \<leftarrow> coeff_set lvd k (d - ao);
                   d \<leftarrow> coeff lvd k;
                   an \<leftarrow> coeff (a_m m) (ls_m m * sf + newtilde);
                   lvd \<leftarrow> coeff_set lvd k (d + an);
                   tn \<leftarrow> sub_row (thetasnew_m m) (W_m m) (ls_m m * sf + oldtilde);
                   let m = m\<lparr>thetasnew_m := tn\<rparr>;
                   tn \<leftarrow> add_row (thetasnew_m m) (W_m m) (ls_m m * sf + newtilde);
                   let m = m\<lparr>thetasnew_m := tn\<rparr>;
                   Some (lvd, m) })
             (lvd, m) = Some (lvd', m')"
  shows "buffers_only m m' \<and> length lvd' = length lvd \<and> (\<forall>i. i \<noteq> k \<longrightarrow> lvd' ! i = lvd ! i)"
proof -
  let ?P = "\<lambda>(l, mm). buffers_only m mm \<and> length l = length lvd \<and> (\<forall>i. i \<noteq> k \<longrightarrow> l ! i = lvd ! i)"
  have "?P (lvd', m')"
  proof (rule for_loop_invariant [OF assms, of ?P])
    show "?P (lvd, m)" by simp
  next
    fix s st st'
    assume P: "?P st" and b: "(\<lambda>s (lvd, m). do {
                   sf \<leftarrow> coeff tck s;
                   x \<leftarrow> coeff v sf;
                   let (oldtilde, m) = confindex_at x m;
                   nck \<leftarrow> coeff newconf k;
                   y \<leftarrow> coeff nck s;
                   let (newtilde, m) = confindex_at y m;
                   d \<leftarrow> coeff lvd k;
                   ao \<leftarrow> coeff (a_m m) (ls_m m * sf + oldtilde);
                   lvd \<leftarrow> coeff_set lvd k (d - ao);
                   d \<leftarrow> coeff lvd k;
                   an \<leftarrow> coeff (a_m m) (ls_m m * sf + newtilde);
                   lvd \<leftarrow> coeff_set lvd k (d + an);
                   tn \<leftarrow> sub_row (thetasnew_m m) (W_m m) (ls_m m * sf + oldtilde);
                   let m = m\<lparr>thetasnew_m := tn\<rparr>;
                   tn \<leftarrow> add_row (thetasnew_m m) (W_m m) (ls_m m * sf + newtilde);
                   let m = m\<lparr>thetasnew_m := tn\<rparr>;
                   Some (lvd, m) }) s st = Some st'"
    obtain l mm where st: "st = (l, mm)" by (cases st)
    obtain l' mm' where st': "st' = (l', mm')" by (cases st')
    from LogValDiff_body_frame [where tck = tck and s = s and v = v and m = mm and newconf = newconf and k = k and lvd = l] b
    have "buffers_only mm mm' \<and> length l' = length l \<and> (\<forall>i. i \<noteq> k \<longrightarrow> l' ! i = l ! i)"
      unfolding st st' prod.case by simp
    with P show "?P st'"
      unfolding st st' prod.case by (auto intro: buffers_only_trans)
  qed
  then show ?thesis by simp
qed

lemma LogValDiff_outer_frame:
  assumes "(\<lambda>k (lvd, m). do {
          tck \<leftarrow> coeff tochange k;
          if length tck \<noteq> 0
          then do {
            let m = m\<lparr>thetasnew_m := thetas_m m\<rparr>;
            (lvd, m) \<leftarrow>
              for_loop [0..<length tck]
                (\<lambda>s (lvd, m). do {
                   sf \<leftarrow> coeff tck s;
                   x \<leftarrow> coeff v sf;
                   let (oldtilde, m) = confindex_at x m;
                   nck \<leftarrow> coeff newconf k;
                   y \<leftarrow> coeff nck s;
                   let (newtilde, m) = confindex_at y m;
                   d \<leftarrow> coeff lvd k;
                   ao \<leftarrow> coeff (a_m m) (ls_m m * sf + oldtilde);
                   lvd \<leftarrow> coeff_set lvd k (d - ao);
                   d \<leftarrow> coeff lvd k;
                   an \<leftarrow> coeff (a_m m) (ls_m m * sf + newtilde);
                   lvd \<leftarrow> coeff_set lvd k (d + an);
                   tn \<leftarrow> sub_row (thetasnew_m m) (W_m m) (ls_m m * sf + oldtilde);
                   let m = m\<lparr>thetasnew_m := tn\<rparr>;
                   tn \<leftarrow> add_row (thetasnew_m m) (W_m m) (ls_m m * sf + newtilde);
                   let m = m\<lparr>thetasnew_m := tn\<rparr>;
                   Some (lvd, m) })
                (lvd, m);
            d \<leftarrow> coeff lvd k;
            lvd \<leftarrow> coeff_set lvd k (d + (SumLogCosh (thetasnew_m m) - logtsum));
            Some (lvd, m) }
          else Some (lvd, m) }) k (lvd, m) = Some (lvd', m')"
  shows "buffers_only m m' \<and> length lvd' = length lvd \<and> (\<forall>i. i \<noteq> k \<longrightarrow> lvd' ! i = lvd ! i)
          \<and> (tochange ! k = [] \<longrightarrow> lvd' = lvd)"
proof -
  from assms obtain tck where ck: "coeff tochange k = Some tck"
    and rest: "(if length tck \<noteq> 0
          then do {
            let m = m\<lparr>thetasnew_m := thetas_m m\<rparr>;
            (lvd, m) \<leftarrow>
              for_loop [0..<length tck]
                (\<lambda>s (lvd, m). do {
                   sf \<leftarrow> coeff tck s;
                   x \<leftarrow> coeff v sf;
                   let (oldtilde, m) = confindex_at x m;
                   nck \<leftarrow> coeff newconf k;
                   y \<leftarrow> coeff nck s;
                   let (newtilde, m) = confindex_at y m;
                   d \<leftarrow> coeff lvd k;
                   ao \<leftarrow> coeff (a_m m) (ls_m m * sf + oldtilde);
                   lvd \<leftarrow> coeff_set lvd k (d - ao);
                   d \<leftarrow> coeff lvd k;
                   an \<leftarrow> coeff (a_m m) (ls_m m * sf + newtilde);
                   lvd \<leftarrow> coeff_set lvd k (d + an);
                   tn \<leftarrow> sub_row (thetasnew_m m) (W_m m) (ls_m m * sf + oldtilde);
                   let m = m\<lparr>thetasnew_m := tn\<rparr>;
                   tn \<leftarrow> add_row (thetasnew_m m) (W_m m) (ls_m m * sf + newtilde);
                   let m = m\<lparr>thetasnew_m := tn\<rparr>;
                   Some (lvd, m) })
                (lvd, m);
            d \<leftarrow> coeff lvd k;
            lvd \<leftarrow> coeff_set lvd k (d + (SumLogCosh (thetasnew_m m) - logtsum));
            Some (lvd, m) }
          else Some (lvd, m)) = Some (lvd', m')"
    unfolding prod.case by (cases "coeff tochange k") auto
  from ck have tck: "tck = tochange ! k"
    by (auto simp: coeff_def split: if_splits)
  show ?thesis
  proof (cases "length tck \<noteq> 0")
    case False
    with rest show ?thesis by simp
  next
    case True
    let ?m1 = "m\<lparr>thetasnew_m := thetas_m m\<rparr>"
    from rest True obtain l1 m1 where
      inner: "for_loop [0..<length tck]
                (\<lambda>s (lvd, m). do {
                   sf \<leftarrow> coeff tck s;
                   x \<leftarrow> coeff v sf;
                   let (oldtilde, m) = confindex_at x m;
                   nck \<leftarrow> coeff newconf k;
                   y \<leftarrow> coeff nck s;
                   let (newtilde, m) = confindex_at y m;
                   d \<leftarrow> coeff lvd k;
                   ao \<leftarrow> coeff (a_m m) (ls_m m * sf + oldtilde);
                   lvd \<leftarrow> coeff_set lvd k (d - ao);
                   d \<leftarrow> coeff lvd k;
                   an \<leftarrow> coeff (a_m m) (ls_m m * sf + newtilde);
                   lvd \<leftarrow> coeff_set lvd k (d + an);
                   tn \<leftarrow> sub_row (thetasnew_m m) (W_m m) (ls_m m * sf + oldtilde);
                   let m = m\<lparr>thetasnew_m := tn\<rparr>;
                   tn \<leftarrow> add_row (thetasnew_m m) (W_m m) (ls_m m * sf + newtilde);
                   let m = m\<lparr>thetasnew_m := tn\<rparr>;
                   Some (lvd, m) })
                (lvd, ?m1) = Some (l1, m1)"
      and fin: "do { d \<leftarrow> coeff l1 k;
            lvd \<leftarrow> coeff_set l1 k (d + (SumLogCosh (thetasnew_m m1) - logtsum));
            Some (lvd, m1) } = Some (lvd', m')"
      unfolding Let_def [of ?m1] by (auto simp: bind_eq_Some_conv)
    from LogValDiff_inner_frame [OF inner]
    have fr: "buffers_only ?m1 m1" and l1: "length l1 = length lvd" "\<forall>i. i \<noteq> k \<longrightarrow> l1 ! i = lvd ! i"
      by simp_all
    from fin have "m' = m1" and "length lvd' = length l1" and "\<forall>i. i \<noteq> k \<longrightarrow> lvd' ! i = l1 ! i"
      by (auto simp: bind_eq_Some_conv coeff_def coeff_set_def split: if_splits)
    moreover have "buffers_only m m1"
      using fr by (simp add: buffers_only_def index_of_eq)
    ultimately show ?thesis
      using l1 True tck by auto
  qed
qed

lemma LogValDiff_frame:
  assumes "LogValDiff SumLogCosh v tochange newconf m = Some (res, m')"
  shows "buffers_only m m' \<and> length res = length tochange
          \<and> (\<forall>k<length tochange. tochange ! k = [] \<longrightarrow> res ! k = 0)"
proof -
  from assms obtain th m1 where ct: "ComputeTheta v m = Some (th, m1)"
    by (cases "ComputeTheta v m") (auto simp: LogValDiff_def)
  let ?m1 = "m1\<lparr>thetas_m := th\<rparr>"
  from assms have loop: "for_loop [0..<length tochange]
       (\<lambda>k (lvd, m). do {
          tck \<leftarrow> coeff tochange k;
          if length tck \<noteq> 0
          then do {
            let m = m\<lparr>thetasnew_m := thetas_m m\<rparr>;
            (lvd, m) \<leftarrow>
              for_loop [0..<length tck]
                (\<lambda>s (lvd, m). do {
                   sf \<leftarrow> coeff tck s;
                   x \<leftarrow> coeff v sf;
                   let (oldtilde, m) = confindex_at x m;
                   nck \<leftarrow> coeff newconf k;
                   y \<leftarrow> coeff nck s;
                   let (newtilde, m) = confindex_at y m;
                   d \<leftarrow> coeff lvd k;
                   ao \<leftarrow> coeff (a_m m) (ls_m m * sf + oldtilde);
                   lvd \<leftarrow> coeff_set lvd k (d - ao);
                   d \<leftarrow> coeff lvd k;
                   an \<leftarrow> coeff (a_m m) (ls_m m * sf + newtilde);
                   lvd \<leftarrow> coeff_set lvd k (d + an);
                   tn \<leftarrow> sub_row (thetasnew_m m) (W_m m) (ls_m m * sf + oldtilde);
                   let m = m\<lparr>thetasnew_m := tn\<rparr>;
                   tn \<leftarrow> add_row (thetasnew_m m) (W_m m) (ls_m m * sf + newtilde);
                   let m = m\<lparr>thetasnew_m := tn\<rparr>;
                   Some (lvd, m) })
                (lvd, m);
            d \<leftarrow> coeff lvd k;
            lvd \<leftarrow> coeff_set lvd k (d + (SumLogCosh (thetasnew_m m) - SumLogCosh (thetas_m (m1\<lparr>thetas_m := th\<rparr>))));
            Some (lvd, m) }
          else Some (lvd, m) })
       (replicate (length tochange) 0, m1\<lparr>thetas_m := th\<rparr>) = Some (res, m')"
    unfolding LogValDiff_def ct
    by (simp only: Option.bind.simps prod.case Let_def [of "length tochange"]
        Let_def [of "replicate (length tochange) 0"] Let_def [of ?m1]
        Let_def [of "\<lambda>x. SumLogCosh (thetas_m ?m1)"] Let_def [of "SumLogCosh (thetas_m ?m1)"])
  let ?P = "\<lambda>(l, mm). buffers_only m mm \<and> length l = length tochange
      \<and> (\<forall>k<length tochange. tochange ! k = [] \<longrightarrow> l ! k = (0::complex))"
  have "?P (res, m')"
  proof (rule for_loop_invariant [OF loop, of ?P])
    show "?P (replicate (length tochange) 0, m1\<lparr>thetas_m := th\<rparr>)"
      using buffers_only_ComputeTheta [OF ct] by simp
  next
    fix k st st'
    assume P: "?P st" and b: "(\<lambda>k (lvd, m). do {
          tck \<leftarrow> coeff tochange k;
          if length tck \<noteq> 0
          then do {
            let m = m\<lparr>thetasnew_m := thetas_m m\<rparr>;
            (lvd, m) \<leftarrow>
              for_loop [0..<length tck]
                (\<lambda>s (lvd, m). do {
                   sf \<leftarrow> coeff tck s;
                   x \<leftarrow> coeff v sf;
                   let (oldtilde, m) = confindex_at x m;
                   nck \<leftarrow> coeff newconf k;
                   y \<leftarrow> coeff nck s;
                   let (newtilde, m) = confindex_at y m;
                   d \<leftarrow> coeff lvd k;
                   ao \<leftarrow> coeff (a_m m) (ls_m m * sf + oldtilde);
                   lvd \<leftarrow> coeff_set lvd k (d - ao);
                   d \<leftarrow> coeff lvd k;
                   an \<leftarrow> coeff (a_m m) (ls_m m * sf + newtilde);
                   lvd \<leftarrow> coeff_set lvd k (d + an);
                   tn \<leftarrow> sub_row (thetasnew_m m) (W_m m) (ls_m m * sf + oldtilde);
                   let m = m\<lparr>thetasnew_m := tn\<rparr>;
                   tn \<leftarrow> add_row (thetasnew_m m) (W_m m) (ls_m m * sf + newtilde);
                   let m = m\<lparr>thetasnew_m := tn\<rparr>;
                   Some (lvd, m) })
                (lvd, m);
            d \<leftarrow> coeff lvd k;
            lvd \<leftarrow> coeff_set lvd k (d + (SumLogCosh (thetasnew_m m) - SumLogCosh (thetas_m (m1\<lparr>thetas_m := th\<rparr>))));
            Some (lvd, m) }
          else Some (lvd, m) }) k st = Some st'"
    obtain l mm where st: "st = (l, mm)" by (cases st)
    obtain l' mm' where st': "st' = (l', mm')" by (cases st')
    from LogValDiff_outer_frame [OF b [unfolded st st']]
    have "buffers_only mm mm'" and "length l' = length l" and "\<forall>i. i \<noteq> k \<longrightarrow> l' ! i = l ! i"
      and "tochange ! k = [] \<longrightarrow> l' = l"
      by simp_all
    with P show "?P st'"
      unfolding st st' prod.case by (metis buffers_only_trans)
  qed
  then show ?thesis by simp
qed

lemma LogValDiff_spec_update_ok [simp]:
  "LogValDiff_spec S (m\<lparr>thetas_m := t\<rparr>) = LogValDiff_spec S m"
  "LogValDiff_spec S (m\<lparr>thetasnew_m := t\<rparr>) = LogValDiff_spec S m"
  "LogValDiff_spec S (m\<lparr>vtilde_m := r\<rparr>) = LogValDiff_spec S m"
  by (simp_all add: LogValDiff_spec_def fun_eq_iff)

lemma length_LogValDiff_spec [simp]:
  "length (LogValDiff_spec S m v tochange newconf) = length tochange"
  by (simp add: LogValDiff_spec_def)

lemma UpdateLookup_theta_moved:
  assumes "machine_ok m" and "legal_conf m v" and "valid_change m tc nc"
  shows "UpdateLookup v tc nc (theta_of m v) m = Some (theta_moved m v tc nc, m)"
  using UpdateLookup_rows [OF assms length_theta_of] by (simp add: theta_moved_def)

lemma loop_step_idx:
  assumes "\<And>p xs. p < n \<Longrightarrow> p < length xs \<Longrightarrow> step p xs = Some (xs[p := f p])" and "n \<le> length pars"
  shows "for_loop [0..<n] step pars = Some (seq_written pars 0 n f)"
  using assms
proof (induction n)
  case 0
  then show ?case by simp
next
  case (Suc n)
  have IH: "for_loop [0..<n] step pars = Some (seq_written pars 0 n f)"
    using Suc.prems by (intro Suc.IH) auto
  have "step n (seq_written pars 0 n f) = Some ((seq_written pars 0 n f)[0 + n := f n])"
    using Suc.prems(2) Suc.prems(1) [of n "seq_written pars 0 n f"] by simp
  also have "\<dots> = Some (seq_written pars 0 (Suc n) f)"
    using Suc.prems by (subst seq_written_step) auto
  finally show ?case
    unfolding for_loop_Suc IH option.case .
qed

lemma loop_step_k:
  assumes "\<And>p xs k. p < n \<Longrightarrow> k < length xs \<Longrightarrow> step p (xs, k) = Some (xs[k := f p], k + 1)"
    and "k + n \<le> length pars"
  shows "for_loop [0..<n] step (pars, k) = Some (seq_written pars k n f, k + n)"
  using assms
proof (induction n)
  case 0
  then show ?case by simp
next
  case (Suc n)
  have IH: "for_loop [0..<n] step (pars, k) = Some (seq_written pars k n f, k + n)"
    using Suc.prems by (intro Suc.IH) auto
  have "step n (seq_written pars k n f, k + n) = Some ((seq_written pars k n f)[k + n := f n], k + n + 1)"
    using Suc.prems(2) by (intro Suc.prems(1)) auto
  also have "\<dots> = Some (seq_written pars k (Suc n) f, k + Suc n)"
    using Suc.prems by (subst seq_written_step) auto
  finally show ?case
    unfolding for_loop_Suc IH option.case .
qed

lemma loop_step_rows:
  assumes "\<And>i j xs k. i < r \<Longrightarrow> j < c \<Longrightarrow> k < length xs \<Longrightarrow> step i j (xs, k) = Some (xs[k := F i j], k + 1)"
    and "k + r * c \<le> length pars"
  shows "for_loop [0..<r] (\<lambda>i. for_loop [0..<c] (step i)) (pars, k)
         = Some (seq_written pars k (r * c) (\<lambda>q. F (q div c) (q mod c)), k + r * c)"
  using assms
proof (induction r)
  case 0
  then show ?case by simp
next
  case (Suc r)
  let ?G = "\<lambda>q. F (q div c) (q mod c)"
  have IH: "for_loop [0..<r] (\<lambda>i. for_loop [0..<c] (step i)) (pars, k)
         = Some (seq_written pars k (r * c) ?G, k + r * c)"
    using Suc.prems by (intro Suc.IH) auto
  have inner: "for_loop [0..<c] (step r) (seq_written pars k (r * c) ?G, k + r * c)
      = Some (seq_written (seq_written pars k (r * c) ?G) (k + r * c) c (F r), k + r * c + c)"
    using Suc.prems(2) by (intro loop_step_k Suc.prems(1)) auto
  have glue: "seq_written (seq_written pars k (r * c) ?G) (k + r * c) c (F r)
      = seq_written pars k (r * c + c) ?G"
    by (rule seq_written_seq) simp
  show ?case
    unfolding for_loop_Suc IH option.case inner glue
    by (simp add: ac_simps)
qed

lemma dims_ok_grad_params: "dims_ok m \<Longrightarrow> length theta = nh_m m \<Longrightarrow> dims_ok (grad_params m v theta)"
  by (auto simp: dims_ok_def grad_params_def off_W_def off_b_def list_all_iff encode_def)

lemma DerLogSingleImpl_flatten:
  assumes ok: "machine_ok m" and lv: "length v = nv_m m" and lt: "length theta = nh_m m"
  shows "DerLogSingleImpl v theta m
           = Some (flatten (grad_params m v theta),
                   m\<lparr>vtilde_m := encode m v, lnthetas_m := map tanh theta\<rparr>)"
proof -
  have tab: "tables_ok m" and dims: "dims_ok m"
    using ok by (simp_all add: machine_ok_def)
  let ?na = "nv_m m * ls_m m"
  let ?vt = "encode m v"
  let ?g = "grad_params m v theta"
  let ?m1 = "m\<lparr>vtilde_m := ?vt\<rparr>"
  let ?m2 = "?m1\<lparr>lnthetas_m := map tanh theta\<rparr>"
  let ?P0 = "setZero (resize (npar_m m) (\<lambda>_. 0::complex))"
  let ?P1 = "seq_written ?P0 0 (off_b m) (\<lambda>k. complex_of_real (?vt ! k))"
  let ?P2 = "seq_written ?P1 (off_b m) (off_W m - off_b m) (\<lambda>p. tanh (theta ! p))"
  let ?G = "\<lambda>q. tanh (theta ! (q mod nh_m m)) * complex_of_real (?vt ! (q div nh_m m))"
  let ?P3 = "seq_written ?P2 (off_W m) (?na * nh_m m) ?G"
  have vt: "ComputeVtilde v m = Some ?vt"
    using tab lv by (rule ComputeVtilde_encode)
  have lvt: "length ?vt = ?na" by (simp add: encode_def)
  have len0: "length ?P0 = npar_m m" by (simp add: resize_def setZero_def)
  have np: "npar_m m = off_W m + ?na * nh_m m"
    using dims by (simp add: dims_ok_def)
  have bW: "off_b m \<le> off_W m" by (simp add: off_W_def)
  have A: "(if usea_m ?m1
        then do {
          der' \<leftarrow> for_loop [0..<nv_m ?m1 * ls_m ?m1]
                    (\<lambda>k der. do { x \<leftarrow> coeff (vtilde_m ?m1) k; coeff_set der k (complex_of_real x) })
                    ?P0;
          Some (der', nv_m ?m1 * ls_m ?m1) }
        else Some (?P0, 0)) = Some (?P1, off_b m)"
  proof (cases "usea_m m")
    case True
    have "for_loop [0..<?na]
        (\<lambda>k der. do { x \<leftarrow> coeff (vtilde_m ?m1) k; coeff_set der k (complex_of_real x) }) ?P0
        = Some (seq_written ?P0 0 ?na (\<lambda>k. complex_of_real (?vt ! k)))"
      using lvt np len0 True
      by (intro loop_step_idx) (auto simp: coeff_def coeff_set_def off_W_def off_b_def)
    with True show ?thesis by (simp add: off_b_def)
  next
    case False
    then show ?thesis by (simp add: off_b_def)
  qed
  have B: "(if useb_m ?m2
        then for_loop [0..<nh_m ?m2]
               (\<lambda>p (der, k). do { x \<leftarrow> coeff (lnthetas_m ?m2) p;
                                   der' \<leftarrow> coeff_set der k x;
                                   Some (der', k + 1) })
               (?P1, off_b m)
        else Some (?P1, off_b m)) = Some (?P2, off_W m)"
  proof (cases "useb_m m")
    case True
    have "for_loop [0..<nh_m m]
               (\<lambda>p (der, k). do { x \<leftarrow> coeff (lnthetas_m ?m2) p;
                                   der' \<leftarrow> coeff_set der k x;
                                   Some (der', k + 1) })
               (?P1, off_b m)
        = Some (seq_written ?P1 (off_b m) (nh_m m) (\<lambda>p. tanh (theta ! p)), off_b m + nh_m m)"
      using lt np len0 True
      by (intro loop_step_k) (auto simp: coeff_def coeff_set_def off_W_def)
    with True show ?thesis by (simp add: off_W_def)
  next
    case False
    then show ?thesis by (simp add: off_W_def)
  qed
  have C: "for_loop [0..<nv_m ?m2 * ls_m ?m2]
         (\<lambda>i. for_loop [0..<nh_m ?m2]
            (\<lambda>j (der, k). do { t \<leftarrow> coeff (lnthetas_m ?m2) j;
                                x \<leftarrow> coeff (vtilde_m ?m2) i;
                                der' \<leftarrow> coeff_set der k (t * complex_of_real x);
                                Some (der', k + 1) }))
         (?P2, off_W m) = Some (?P3, off_W m + ?na * nh_m m)"
  proof -
    have "for_loop [0..<?na]
         (\<lambda>i. for_loop [0..<nh_m m]
            (\<lambda>j (der, k). do { t \<leftarrow> coeff (lnthetas_m ?m2) j;
                                x \<leftarrow> coeff (vtilde_m ?m2) i;
                                der' \<leftarrow> coeff_set der k (t * complex_of_real x);
                                Some (der', k + 1) }))
         (?P2, off_W m)
        = Some (seq_written ?P2 (off_W m) (?na * nh_m m)
                  (\<lambda>q. tanh (theta ! (q mod nh_m m)) * complex_of_real (?vt ! (q div nh_m m))),
                off_W m + ?na * nh_m m)"
      using lt lvt np len0
      by (intro loop_step_rows [where F = "\<lambda>i j. tanh (theta ! j) * complex_of_real (?vt ! i)"])
         (auto simp: coeff_def coeff_set_def)
    then show ?thesis by simp
  qed
  have okg: "dims_ok ?g" using dims lt by (rule dims_ok_grad_params)
  have offs: "off_b ?g = off_b m" "off_W ?g = off_W m" "npar_m ?g = npar_m m" "nh_m ?g = nh_m m"
    by (simp_all add: grad_params_def off_W_def off_b_def)
  have "?P3 = map (flat_at ?g) [0..<npar_m m]"
  proof (rule nth_equalityI)
    show "length ?P3 = length (map (flat_at ?g) [0..<npar_m m])"
      using len0 by simp
  next
    fix t assume "t < length ?P3"
    then have t: "t < npar_m m" using len0 by simp
    show "?P3 ! t = map (flat_at ?g) [0..<npar_m m] ! t"
    proof (cases "t < off_W m")
      case True
      then show ?thesis
        using t len0 np bW lvt lt
        by (auto simp: nth_seq_written flat_at_def offs grad_params_def off_b_def off_W_def split: if_splits)
    next
      case False
      define q where "q = t - off_W m"
      have q: "q < ?na * nh_m m" and tq: "t = off_W m + q"
        using False t np by (simp_all add: q_def)
      then have c: "0 < nh_m m" by (cases "nh_m m") auto
      have qd: "q div nh_m m < ?na"
        using q c by (simp add: less_mult_imp_div_less)
      have qm: "q mod nh_m m < nh_m m" using c by simp
      have "flat_at ?g t = W_m ?g ! (q div nh_m m) ! (q mod nh_m m)"
        using False bW by (auto simp: flat_at_def offs q_def)
      also have "\<dots> = ?G q"
        using qd qm by (simp add: grad_params_def)
      finally show ?thesis
        using t len0 q False by (simp add: nth_seq_written tq)
    qed
  qed
  also have "\<dots> = flatten ?g"
    using flatten_flat_at [OF okg] by (simp add: offs)
  finally have fin: "?P3 = flatten ?g" .
  show ?thesis
    unfolding DerLogSingleImpl_def vt Let_def
    by (simp only: Option.bind.simps A B C fin prod.case)
qed

lemma encode_one_hot:
  assumes tab: "tables_ok m" and legal: "legal_conf m v" and s: "s < nv_m m" and q: "q < ls_m m"
  shows "encode m v ! (ls_m m * s + q) = (if q = index_of m (v ! s) then 1 else 0)"
proof -
  let ?lst = "LocalStates (hilbert_m m)"
  have len: "length ?lst = ls_m m" and dist: "distinct ?lst"
    using tab by (simp_all add: tables_ok_def)
  note idx = legal_index(2,3) [OF tab legal_conf_nth [OF legal s]]
  have lt: "s * ls_m m + q < nv_m m * ls_m m"
    using s q by (rule block_index_less)
  have "(?lst ! q = ?lst ! index_of m (v ! s)) = (q = index_of m (v ! s))"
    using q idx(1) len dist by (intro nth_eq_iff_index_eq) simp_all
  then have "(?lst ! q = v ! s) = (q = index_of m (v ! s))"
    by (simp only: idx(2))
  with lt q show ?thesis
    by (simp add: encode_def mult.commute)
qed

lemma flatten_grad_params_vtilde [simp]:
  "flatten (grad_params (m\<lparr>vtilde_m := r\<rparr>) v theta) = flatten (grad_params m v theta)"
  by (simp add: flatten_def grad_params_def encode_def)

lemma ex_encode: "encode ex_machine [- 1, 1] = [1, 0, 0, 1]"
  by code_simp

lemma ex_dims: "nv_m ex_machine * ls_m ex_machine = 4" "nh_m ex_machine = 2"
  "usea_m ex_machine" "useb_m ex_machine" "[0..<4] = [0, 1, 2, 3]" "[0..<2] = [0, 1]"
  by code_simp+

lemma ex_save: "Save ex_machine = ex_record"
  by (simp add: Save_def ex_record_def ex_machine_def)

lemma ex_load:
  "(case Load absent_int absent_double ex_storage ex_record ex_machine of
      Loaded m \<Rightarrow> (a_m m, b_m m, W_m m, nv_m m, ls_m m, nh_m m, npar_m m) | _ \<Rightarrow> ([], [], [], 0, 0, 0, 0))
     = ([1, 2, 3, 4], [1, - 1], [[1, 2], [3, 4], [5, 6], [7, 8]], 2, 2, 2, 14)"
  by code_simp

section \<open>Two calls of LogValDiff\<close>

lemma for_loop_rel:
  assumes "R s1 s2" and "\<And>i t1 t2. R t1 t2 \<Longrightarrow> rel_option R (body1 i t1) (body2 i t2)"
  shows "rel_option R (for_loop xs body1 s1) (for_loop xs body2 s2)"
  using assms(1)
proof (induction xs arbitrary: s1 s2)
  case Nil
  then show ?case by simp
next
  case (Cons i xs)
  from assms(2) [OF Cons.prems, of i] show ?case
  proof (cases rule: option.rel_cases)
    case None
    then show ?thesis by simp
  next
    case (Some t1 t2)
    then show ?thesis using Cons.IH [of t1 t2] by simp
  qed
qed

lemma buffers_only_sym: "buffers_only m m' \<Longrightarrow> buffers_only m' m"
  by (simp add: buffers_only_def)

lemma confindex_at_sim:
  assumes "buffers_only m1 m2"
  obtains i n1 n2 where "confindex_at x m1 = (i, n1)" and "confindex_at x m2 = (i, n2)"
    and "buffers_only n1 n2" and "thetas_m n1 = thetas_m m1" and "thetas_m n2 = thetas_m m2"
    and "thetasnew_m n1 = thetasnew_m m1" and "thetasnew_m n2 = thetasnew_m m2"
proof -
  obtain i n1 where c1: "confindex_at x m1 = (i, n1)" by (cases "confindex_at x m1")
  obtain i' n2 where c2: "confindex_at x m2 = (i', n2)" by (cases "confindex_at x m2")
  have "i = index_of m1 x" "i' = index_of m2 x"
    using c1 c2 by (simp_all add: index_of_def)
  then have ii: "i' = i" using assms by (simp add: buffers_only_def)
  have "buffers_only m1 n1" "buffers_only m2 n2"
    using c1 c2 by (auto dest: buffers_only_confindex_at)
  then have "buffers_only n1 n2"
    using assms by (meson buffers_only_sym buffers_only_trans)
  moreover have "thetas_m n1 = thetas_m m1" "thetas_m n2 = thetas_m m2"
    "thetasnew_m n1 = thetasnew_m m1" "thetasnew_m n2 = thetasnew_m m2"
    using c1 c2 by (auto simp: confindex_at_def split: option.splits)
  ultimately show ?thesis using that c1 c2 ii by blast
qed

lemma LogValDiff_body_sim:
  assumes b: "buffers_only m1 m2" and th: "thetas_m m1 = thetas_m m2"
    and tn: "thetasnew_m m1 = thetasnew_m m2"
  shows "rel_option sim_inner
           (do {
           sf \<leftarrow> coeff tck s;
           x \<leftarrow> coeff v sf;
           let (oldtilde, m) = confindex_at x m1;
           nck \<leftarrow> coeff newconf k;
           y \<leftarrow> coeff nck s;
           let (newtilde, m) = confindex_at y m;
           d \<leftarrow> coeff lvd k;
           ao \<leftarrow> coeff (a_m m) (ls_m m * sf + oldtilde);
           lvd \<leftarrow> coeff_set lvd k (d - ao);
           d \<leftarrow> coeff lvd k;
           an \<leftarrow> coeff (a_m m) (ls_m m * sf + newtilde);
           lvd \<leftarrow> coeff_set lvd k (d + an);
           tn \<leftarrow> sub_row (thetasnew_m m) (W_m m) (ls_m m * sf + oldtilde);
           let m = m\<lparr>thetasnew_m := tn\<rparr>;
           tn \<leftarrow> add_row (thetasnew_m m) (W_m m) (ls_m m * sf + newtilde);
           let m = m\<lparr>thetasnew_m := tn\<rparr>;
           Some (lvd, m) })
           (do {
           sf \<leftarrow> coeff tck s;
           x \<leftarrow> coeff v sf;
           let (oldtilde, m) = confindex_at x m2;
           nck \<leftarrow> coeff newconf k;
           y \<leftarrow> coeff nck s;
           let (newtilde, m) = confindex_at y m;
           d \<leftarrow> coeff lvd k;
           ao \<leftarrow> coeff (a_m m) (ls_m m * sf + oldtilde);
           lvd \<leftarrow> coeff_set lvd k (d - ao);
           d \<leftarrow> coeff lvd k;
           an \<leftarrow> coeff (a_m m) (ls_m m * sf + newtilde);
           lvd \<leftarrow> coeff_set lvd k (d + an);
           tn \<leftarrow> sub_row (thetasnew_m m) (W_m m) (ls_m m * sf + oldtilde);
           let m = m\<lparr>thetasnew_m := tn\<rparr>;
           tn \<leftarrow> add_row (thetasnew_m m) (W_m m) (ls_m m * sf + newtilde);
           let m = m\<lparr>thetasnew_m := tn\<rparr>;
           Some (lvd, m) })"
proof (cases "coeff tck s")
  case None
  then show ?thesis by simp
next
  case sf: (Some sf)
  show ?thesis
  proof (cases "coeff v sf")
    case None
    with sf show ?thesis by simp
  next
    case x: (Some x)
    from confindex_at_sim [OF b, of x] obtain i n1 n2 where
      c1: "confindex_at x m1 = (i, n1)" "confindex_at x m2 = (i, n2)" and bn: "buffers_only n1 n2"
      and t1: "thetas_m n1 = thetas_m m1" "thetas_m n2 = thetas_m m2"
        "thetasnew_m n1 = thetasnew_m m1" "thetasnew_m n2 = thetasnew_m m2"
      by blast
    show ?thesis
    proof (cases "coeff newconf k")
      case None
      with sf x c1 show ?thesis by simp
    next
      case nck: (Some nck)
      show ?thesis
      proof (cases "coeff nck s")
        case None
        with sf x c1 nck show ?thesis by simp
      next
        case y: (Some y)
        from confindex_at_sim [OF bn, of y] obtain j p1 p2 where
          c2: "confindex_at y n1 = (j, p1)" "confindex_at y n2 = (j, p2)" and bp: "buffers_only p1 p2"
          and t2: "thetas_m p1 = thetas_m n1" "thetas_m p2 = thetas_m n2"
            "thetasnew_m p1 = thetasnew_m n1" "thetasnew_m p2 = thetasnew_m n2"
          by blast
        have eq: "a_m p2 = a_m p1" "ls_m p2 = ls_m p1" "W_m p2 = W_m p1" "thetasnew_m p2 = thetasnew_m p1"
          "thetas_m p2 = thetas_m p1"
          using bp t1 t2 th tn by (simp_all add: buffers_only_def)
        have "\<And>t. buffers_only (p1\<lparr>thetasnew_m := t\<rparr>) (p2\<lparr>thetasnew_m := t\<rparr>)"
          using bp by (simp add: buffers_only_def index_of_eq)
        then show ?thesis
          unfolding sf x c1 nck y c2 Option.bind.simps Let_def prod.case
          by (auto simp: eq sim_inner_def split: bind_split)
      qed
    qed
  qed
qed

lemma LogValDiff_inner_sim:
  assumes "sim_inner s1 s2"
  shows "rel_option sim_inner
           (for_loop xs
              (\<lambda>s (lvd, m). do {
                   sf \<leftarrow> coeff tck s;
                   x \<leftarrow> coeff v sf;
                   let (oldtilde, m) = confindex_at x m;
                   nck \<leftarrow> coeff newconf k;
                   y \<leftarrow> coeff nck s;
                   let (newtilde, m) = confindex_at y m;
                   d \<leftarrow> coeff lvd k;
                   ao \<leftarrow> coeff (a_m m) (ls_m m * sf + oldtilde);
                   lvd \<leftarrow> coeff_set lvd k (d - ao);
                   d \<leftarrow> coeff lvd k;
                   an \<leftarrow> coeff (a_m m) (ls_m m * sf + newtilde);
                   lvd \<leftarrow> coeff_set lvd k (d + an);
                   tn \<leftarrow> sub_row (thetasnew_m m) (W_m m) (ls_m m * sf + oldtilde);
                   let m = m\<lparr>thetasnew_m := tn\<rparr>;
                   tn \<leftarrow> add_row (thetasnew_m m) (W_m m) (ls_m m * sf + newtilde);
                   let m = m\<lparr>thetasnew_m := tn\<rparr>;
                   Some (lvd, m) }) s1)
           (for_loop xs
              (\<lambda>s (lvd, m). do {
                   sf \<leftarrow> coeff tck s;
                   x \<leftarrow> coeff v sf;
                   let (oldtilde, m) = confindex_at x m;
                   nck \<leftarrow> coeff newconf k;
                   y \<leftarrow> coeff nck s;
                   let (newtilde, m) = confindex_at y m;
                   d \<leftarrow> coeff lvd k;
                   ao \<leftarrow> coeff (a_m m) (ls_m m * sf + oldtilde);
                   lvd \<leftarrow> coeff_set lvd k (d - ao);
                   d \<leftarrow> coeff lvd k;
                   an \<leftarrow> coeff (a_m m) (ls_m m * sf + newtilde);
                   lvd \<leftarrow> coeff_set lvd k (d + an);
                   tn \<leftarrow> sub_row (thetasnew_m m) (W_m m) (ls_m m * sf + oldtilde);
                   let m = m\<lparr>thetasnew_m := tn\<rparr>;
                   tn \<leftarrow> add_row (thetasnew_m m) (W_m m) (ls_m m * sf + newtilde);
                   let m = m\<lparr>thetasnew_m := tn\<rparr>;
                   Some (lvd, m) }) s2)"
proof (rule for_loop_rel [where R = sim_inner])
  show "sim_inner s1 s2" by (rule assms)
next
  fix i t1 t2 assume r: "sim_inner t1 t2"
  obtain l1 n1 where t1: "t1 = (l1, n1)" by (cases t1)
  obtain l2 n2 where t2: "t2 = (l2, n2)" by (cases t2)
  from r have l: "l2 = l1" and b: "buffers_only n1 n2" and th: "thetas_m n1 = thetas_m n2"
    and tn: "thetasnew_m n1 = thetasnew_m n2"
    by (simp_all add: sim_inner_def t1 t2)
  show "rel_option sim_inner
     ((\<lambda>s (lvd, m). do {
                   sf \<leftarrow> coeff tck s;
                   x \<leftarrow> coeff v sf;
                   let (oldtilde, m) = confindex_at x m;
                   nck \<leftarrow> coeff newconf k;
                   y \<leftarrow> coeff nck s;
                   let (newtilde, m) = confindex_at y m;
                   d \<leftarrow> coeff lvd k;
                   ao \<leftarrow> coeff (a_m m) (ls_m m * sf + oldtilde);
                   lvd \<leftarrow> coeff_set lvd k (d - ao);
                   d \<leftarrow> coeff lvd k;
                   an \<leftarrow> coeff (a_m m) (ls_m m * sf + newtilde);
                   lvd \<leftarrow> coeff_set lvd k (d + an);
                   tn \<leftarrow> sub_row (thetasnew_m m) (W_m m) (ls_m m * sf + oldtilde);
                   let m = m\<lparr>thetasnew_m := tn\<rparr>;
                   tn \<leftarrow> add_row (thetasnew_m m) (W_m m) (ls_m m * sf + newtilde);
                   let m = m\<lparr>thetasnew_m := tn\<rparr>;
                   Some (lvd, m) }) i t1)
     ((\<lambda>s (lvd, m). do {
                   sf \<leftarrow> coeff tck s;
                   x \<leftarrow> coeff v sf;
                   let (oldtilde, m) = confindex_at x m;
                   nck \<leftarrow> coeff newconf k;
                   y \<leftarrow> coeff nck s;
                   let (newtilde, m) = confindex_at y m;
                   d \<leftarrow> coeff lvd k;
                   ao \<leftarrow> coeff (a_m m) (ls_m m * sf + oldtilde);
                   lvd \<leftarrow> coeff_set lvd k (d - ao);
                   d \<leftarrow> coeff lvd k;
                   an \<leftarrow> coeff (a_m m) (ls_m m * sf + newtilde);
                   lvd \<leftarrow> coeff_set lvd k (d + an);
                   tn \<leftarrow> sub_row (thetasnew_m m) (W_m m) (ls_m m * sf + oldtilde);
                   let m = m\<lparr>thetasnew_m := tn\<rparr>;
                   tn \<leftarrow> add_row (thetasnew_m m) (W_m m) (ls_m m * sf + newtilde);
                   let m = m\<lparr>thetasnew_m := tn\<rparr>;
                   Some (lvd, m) }) i t2)"
    unfolding t1 t2 l prod.case
    by (rule LogValDiff_body_sim [OF b th tn])
qed

lemma LogValDiff_outer_sim:
  assumes "sim_outer t1 t2"
  shows "rel_option sim_outer
     ((\<lambda>k (lvd, m). do {
          tck \<leftarrow> coeff tochange k;
          if length tck \<noteq> 0
          then do {
            let m = m\<lparr>thetasnew_m := thetas_m m\<rparr>;
            (lvd, m) \<leftarrow>
              for_loop [0..<length tck]
                (\<lambda>s (lvd, m). do {
                   sf \<leftarrow> coeff tck s;
                   x \<leftarrow> coeff v sf;
                   let (oldtilde, m) = confindex_at x m;
                   nck \<leftarrow> coeff newconf k;
                   y \<leftarrow> coeff nck s;
                   let (newtilde, m) = confindex_at y m;
                   d \<leftarrow> coeff lvd k;
                   ao \<leftarrow> coeff (a_m m) (ls_m m * sf + oldtilde);
                   lvd \<leftarrow> coeff_set lvd k (d - ao);
                   d \<leftarrow> coeff lvd k;
                   an \<leftarrow> coeff (a_m m) (ls_m m * sf + newtilde);
                   lvd \<leftarrow> coeff_set lvd k (d + an);
                   tn \<leftarrow> sub_row (thetasnew_m m) (W_m m) (ls_m m * sf + oldtilde);
                   let m = m\<lparr>thetasnew_m := tn\<rparr>;
                   tn \<leftarrow> add_row (thetasnew_m m) (W_m m) (ls_m m * sf + newtilde);
                   let m = m\<lparr>thetasnew_m := tn\<rparr>;
                   Some (lvd, m) })
                (lvd, m);
            d \<leftarrow> coeff lvd k;
            lvd \<leftarrow> coeff_set lvd k (d + (SumLogCosh (thetasnew_m m) - logtsum));
            Some (lvd, m) }
          else Some (lvd, m) }) k t1)
     ((\<lambda>k (lvd, m). do {
          tck \<leftarrow> coeff tochange k;
          if length tck \<noteq> 0
          then do {
            let m = m\<lparr>thetasnew_m := thetas_m m\<rparr>;
            (lvd, m) \<leftarrow>
              for_loop [0..<length tck]
                (\<lambda>s (lvd, m). do {
                   sf \<leftarrow> coeff tck s;
                   x \<leftarrow> coeff v sf;
                   let (oldtilde, m) = confindex_at x m;
                   nck \<leftarrow> coeff newconf k;
                   y \<leftarrow> coeff nck s;
                   let (newtilde, m) = confindex_at y m;
                   d \<leftarrow> coeff lvd k;
                   ao \<leftarrow> coeff (a_m m) (ls_m m * sf + oldtilde);
                   lvd \<leftarrow> coeff_set lvd k (d - ao);
                   d \<leftarrow> coeff lvd k;
                   an \<leftarrow> coeff (a_m m) (ls_m m * sf + newtilde);
                   lvd \<leftarrow> coeff_set lvd k (d + an);
                   tn \<leftarrow> sub_row (thetasnew_m m) (W_m m) (ls_m m * sf + oldtilde);
                   let m = m\<lparr>thetasnew_m := tn\<rparr>;
                   tn \<leftarrow> add_row (thetasnew_m m) (W_m m) (ls_m m * sf + newtilde);
                   let m = m\<lparr>thetasnew_m := tn\<rparr>;
                   Some (lvd, m) })
                (lvd, m);
            d \<leftarrow> coeff lvd k;
            lvd \<leftarrow> coeff_set lvd k (d + (SumLogCosh (thetasnew_m m) - logtsum));
            Some (lvd, m) }
          else Some (lvd, m) }) k t2)"
proof -
  obtain l n1 where t1: "t1 = (l, n1)" by (cases t1)
  obtain l2 n2 where t2': "t2 = (l2, n2)" by (cases t2)
  from assms have l: "l2 = l" and b: "buffers_only n1 n2" and th: "thetas_m n1 = thetas_m n2"
    by (simp_all add: sim_outer_def t1 t2')
  have t2: "t2 = (l, n2)" using t2' l by simp
  show ?thesis
  proof (cases "coeff tochange k")
    case None
    then show ?thesis by (simp add: t1 t2)
  next
    case (Some tck)
    show ?thesis
    proof (cases "length tck \<noteq> 0")
      case False
      with Some assms show ?thesis by (simp add: t1 t2)
    next
      case True
      let ?p1 = "n1\<lparr>thetasnew_m := thetas_m n1\<rparr>" and ?p2 = "n2\<lparr>thetasnew_m := thetas_m n2\<rparr>"
      have "sim_inner (l, ?p1) (l, ?p2)"
        using b th by (simp add: sim_inner_def buffers_only_def index_of_eq)
      from LogValDiff_inner_sim [OF this, of "[0..<length tck]" tck v newconf k]
      show ?thesis
      proof (cases rule: option.rel_cases)
        case None
        with Some True show ?thesis
          unfolding t1 t2 prod.case by (simp add: Let_def [of ?p1] Let_def [of ?p2])
      next
        case (Some r1 r2)
        obtain l' q1 where r1: "r1 = (l', q1)" by (cases r1)
        obtain l'' q2 where r2: "r2 = (l'', q2)" by (cases r2)
        from Some(3) have "l'' = l'" and "buffers_only q1 q2" and "thetas_m q1 = thetas_m q2"
          and "thetasnew_m q1 = thetasnew_m q2"
          by (simp_all add: sim_inner_def r1 r2)
        with Some(1,2) \<open>coeff tochange k = Some tck\<close> True show ?thesis
          unfolding t1 t2 prod.case
          by (auto simp: Let_def [of ?p1] Let_def [of ?p2] r1 r2 sim_outer_def split: bind_split)
      qed
    qed
  qed
qed

lemma ComputeTheta_sim:
  assumes "buffers_only m1 m2"
  shows "rel_option (\<lambda>(t1, n1) (t2, n2). t1 = t2 \<and> buffers_only n1 n2)
           (ComputeTheta v m1) (ComputeTheta v m2)"
proof -
  have "ComputeVtilde v m2 = ComputeVtilde v m1"
    using assms by (simp add: ComputeVtilde_def buffers_only_def)
  moreover have "\<And>r. buffers_only (m1\<lparr>vtilde_m := r\<rparr>) (m2\<lparr>vtilde_m := r\<rparr>)"
    using assms by (simp add: buffers_only_def index_of_eq)
  moreover have "W_m m2 = W_m m1" "b_m m2 = b_m m1" "nh_m m2 = nh_m m1"
    using assms by (simp_all add: buffers_only_def)
  ultimately show ?thesis
    by (cases "ComputeVtilde v m1") (simp_all add: ComputeTheta_def Let_def)
qed

lemma LogValDiff_sim:
  assumes "buffers_only m1 m2"
  shows "rel_option (\<lambda>r1 r2. fst r1 = fst r2 \<and> buffers_only (snd r1) (snd r2))
           (LogValDiff SumLogCosh v tochange newconf m1) (LogValDiff SumLogCosh v tochange newconf m2)"
proof -
  from ComputeTheta_sim [OF assms, of v] show ?thesis
  proof (cases rule: option.rel_cases)
    case None
    then show ?thesis by (simp add: LogValDiff_def)
  next
    case (Some r1 r2)
    obtain th n1 where r1: "r1 = (th, n1)" by (cases r1)
    obtain th2 n2 where r2: "r2 = (th2, n2)" by (cases r2)
    from Some(3) have th2: "th2 = th" and b: "buffers_only n1 n2"
      by (simp_all add: r1 r2)
    let ?p1 = "n1\<lparr>thetas_m := th\<rparr>" and ?p2 = "n2\<lparr>thetas_m := th\<rparr>"
    have "sim_outer (replicate (length tochange) 0, ?p1) (replicate (length tochange) 0, ?p2)"
      using b by (simp add: sim_outer_def buffers_only_def index_of_eq)
    then have X: "rel_option sim_outer
       (for_loop [0..<length tochange] (\<lambda>k (lvd, m). do {
          tck \<leftarrow> coeff tochange k;
          if length tck \<noteq> 0
          then do {
            let m = m\<lparr>thetasnew_m := thetas_m m\<rparr>;
            (lvd, m) \<leftarrow>
              for_loop [0..<length tck]
                (\<lambda>s (lvd, m). do {
                   sf \<leftarrow> coeff tck s;
                   x \<leftarrow> coeff v sf;
                   let (oldtilde, m) = confindex_at x m;
                   nck \<leftarrow> coeff newconf k;
                   y \<leftarrow> coeff nck s;
                   let (newtilde, m) = confindex_at y m;
                   d \<leftarrow> coeff lvd k;
                   ao \<leftarrow> coeff (a_m m) (ls_m m * sf + oldtilde);
                   lvd \<leftarrow> coeff_set lvd k (d - ao);
                   d \<leftarrow> coeff lvd k;
                   an \<leftarrow> coeff (a_m m) (ls_m m * sf + newtilde);
                   lvd \<leftarrow> coeff_set lvd k (d + an);
                   tn \<leftarrow> sub_row (thetasnew_m m) (W_m m) (ls_m m * sf + oldtilde);
                   let m = m\<lparr>thetasnew_m := tn\<rparr>;
                   tn \<leftarrow> add_row (thetasnew_m m) (W_m m) (ls_m m * sf + newtilde);
                   let m = m\<lparr>thetasnew_m := tn\<rparr>;
                   Some (lvd, m) })
                (lvd, m);
            d \<leftarrow> coeff lvd k;
            lvd \<leftarrow> coeff_set lvd k (d + (SumLogCosh (thetasnew_m m) - SumLogCosh th));
            Some (lvd, m) }
          else Some (lvd, m) }) (replicate (length tochange) 0, ?p1))
       (for_loop [0..<length tochange] (\<lambda>k (lvd, m). do {
          tck \<leftarrow> coeff tochange k;
          if length tck \<noteq> 0
          then do {
            let m = m\<lparr>thetasnew_m := thetas_m m\<rparr>;
            (lvd, m) \<leftarrow>
              for_loop [0..<length tck]
                (\<lambda>s (lvd, m). do {
                   sf \<leftarrow> coeff tck s;
                   x \<leftarrow> coeff v sf;
                   let (oldtilde, m) = confindex_at x m;
                   nck \<leftarrow> coeff newconf k;
                   y \<leftarrow> coeff nck s;
                   let (newtilde, m) = confindex_at y m;
                   d \<leftarrow> coeff lvd k;
                   ao \<leftarrow> coeff (a_m m) (ls_m m * sf + oldtilde);
                   lvd \<leftarrow> coeff_set lvd k (d - ao);
                   d \<leftarrow> coeff lvd k;
                   an \<leftarrow> coeff (a_m m) (ls_m m * sf + newtilde);
                   lvd \<leftarrow> coeff_set lvd k (d + an);
                   tn \<leftarrow> sub_row (thetasnew_m m) (W_m m) (ls_m m * sf + oldtilde);
                   let m = m\<lparr>thetasnew_m := tn\<rparr>;
                   tn \<leftarrow> add_row (thetasnew_m m) (W_m m) (ls_m m * sf + newtilde);
                   let m = m\<lparr>thetasnew_m := tn\<rparr>;
                   Some (lvd, m) })
                (lvd, m);
            d \<leftarrow> coeff lvd k;
            lvd \<leftarrow> coeff_set lvd k (d + (SumLogCosh (thetasnew_m m) - SumLogCosh th));
            Some (lvd, m) }
          else Some (lvd, m) }) (replicate (length tochange) 0, ?p2))"
      by (rule for_loop_rel [where R = sim_outer]) (rule LogValDiff_outer_sim)
    have "rel_option (\<lambda>r1 r2. fst r1 = fst r2 \<and> buffers_only (snd r1) (snd r2))
       (for_loop [0..<length tochange] (\<lambda>k (lvd, m). do {
          tck \<leftarrow> coeff tochange k;
          if length tck \<noteq> 0
          then do {
            let m = m\<lparr>thetasnew_m := thetas_m m\<rparr>;
            (lvd, m) \<leftarrow>
              for_loop [0..<length tck]
                (\<lambda>s (lvd, m). do {
                   sf \<leftarrow> coeff tck s;
                   x \<leftarrow> coeff v sf;
                   let (oldtilde, m) = confindex_at x m;
                   nck \<leftarrow> coeff newconf k;
                   y \<leftarrow> coeff nck s;
                   let (newtilde, m) = confindex_at y m;
                   d \<leftarrow> coeff lvd k;
                   ao \<leftarrow> coeff (a_m m) (ls_m m * sf + oldtilde);
                   lvd \<leftarrow> coeff_set lvd k (d - ao);
                   d \<leftarrow> coeff lvd k;
                   an \<leftarrow> coeff (a_m m) (ls_m m * sf + newtilde);
                   lvd \<leftarrow> coeff_set lvd k (d + an);
                   tn \<leftarrow> sub_row (thetasnew_m m) (W_m m) (ls_m m * sf + oldtilde);
                   let m = m\<lparr>thetasnew_m := tn\<rparr>;
                   tn \<leftarrow> add_row (thetasnew_m m) (W_m m) (ls_m m * sf + newtilde);
                   let m = m\<lparr>thetasnew_m := tn\<rparr>;
                   Some (lvd, m) })
                (lvd, m);
            d \<leftarrow> coeff lvd k;
            lvd \<leftarrow> coeff_set lvd k (d + (SumLogCosh (thetasnew_m m) - SumLogCosh th));
            Some (lvd, m) }
          else Some (lvd, m) }) (replicate (length tochange) 0, ?p1))
       (for_loop [0..<length tochange] (\<lambda>k (lvd, m). do {
          tck \<leftarrow> coeff tochange k;
          if length tck \<noteq> 0
          then do {
            let m = m\<lparr>thetasnew_m := thetas_m m\<rparr>;
            (lvd, m) \<leftarrow>
              for_loop [0..<length tck]
                (\<lambda>s (lvd, m). do {
                   sf \<leftarrow> coeff tck s;
                   x \<leftarrow> coeff v sf;
                   let (oldtilde, m) = confindex_at x m;
                   nck \<leftarrow> coeff newconf k;
                   y \<leftarrow> coeff nck s;
                   let (newtilde, m) = confindex_at y m;
                   d \<leftarrow> coeff lvd k;
                   ao \<leftarrow> coeff (a_m m) (ls_m m * sf + oldtilde);
                   lvd \<leftarrow> coeff_set lvd k (d - ao);
                   d \<leftarrow> coeff lvd k;
                   an \<leftarrow> coeff (a_m m) (ls_m m * sf + newtilde);
                   lvd \<leftarrow> coeff_set lvd k (d + an);
                   tn \<leftarrow> sub_row (thetasnew_m m) (W_m m) (ls_m m * sf + oldtilde);
                   let m = m\<lparr>thetasnew_m := tn\<rparr>;
                   tn \<leftarrow> add_row (thetasnew_m m) (W_m m) (ls_m m * sf + newtilde);
                   let m = m\<lparr>thetasnew_m := tn\<rparr>;
                   Some (lvd, m) })
                (lvd, m);
            d \<leftarrow> coeff lvd k;
            lvd \<leftarrow> coeff_set lvd k (d + (SumLogCosh (thetasnew_m m) - SumLogCosh th));
            Some (lvd, m) }
          else Some (lvd, m) }) (replicate (length tochange) 0, ?p2))"
      by (rule option.rel_mono_strong [OF X]) (auto simp: sim_outer_def)
    note Y = this
    have sel: "thetas_m ?p1 = th" "thetas_m ?p2 = th" by simp_all
    show ?thesis
      unfolding LogValDiff_def Some(1,2) r1 r2 th2
      apply (simp only: Option.bind.simps prod.case Let_def [of "length tochange"]
        Let_def [of "replicate (length tochange) 0"] Let_def [of ?p1] Let_def [of ?p2]
        Let_def [of "\<lambda>x. SumLogCosh (thetas_m ?p1)"] Let_def [of "SumLogCosh (thetas_m ?p1)"]
        Let_def [of "\<lambda>x. SumLogCosh (thetas_m ?p2)"] Let_def [of "SumLogCosh (thetas_m ?p2)"]
        Let_def [of "SumLogCosh th"] sel)
      apply (rule Y)
      done
  qed
qed

lemma InitLookup_sim:
  assumes "buffers_only m m'"
  shows "map_option fst (InitLookup c m') = map_option fst (InitLookup c m)"
  using ComputeTheta_sim [OF assms, of c]
  by (cases rule: option.rel_cases) (auto simp: InitLookup_def)

section \<open>The states the object reaches\<close>

lemma RbmMultival_new_ok:
  assumes "length (LocalStates h) = LocalSize h" and "distinct (LocalStates h)"
  shows "\<exists>m. RbmMultival_new st h nhidden alpha usea useb = Some m \<and> machine_ok m \<and> hilbert_m m = h
           \<and> nv_m m = Size h \<and> ls_m m = LocalSize h \<and> nh_m m = max nhidden (alpha * Size h)
           \<and> usea_m m = usea \<and> useb_m m = useb"
proof -
  let ?m0 = "\<lparr>hilbert_m = h, nv_m = Size h, ls_m = LocalSize h,
              nh_m = max nhidden (alpha * Size h), npar_m = 0,
              usea_m = usea, useb_m = useb,
              W_m = [], a_m = [], b_m = [],
              thetas_m = [], lnthetas_m = [], thetasnew_m = [], lnthetasnew_m = [],
              localconfs_m = [], mask_m = [], confindex_m = Map.empty, vtilde_m = []\<rparr>"
  have "ls_m ?m0 \<le> length (LocalStates (hilbert_m ?m0))" using assms by simp
  from Init_total [OF this, of st] obtain m where m: "Init st ?m0 = Some m" by blast
  have "tables_ok m"
    using assms by (intro Init_tables_ok [OF m]) simp_all
  moreover have "dims_ok m" using m by (rule Init_dims_ok)
  ultimately show ?thesis
    using m Init_fields(1-6) [OF m] by (simp add: RbmMultival_new_def machine_ok_def)
qed

lemma SetParameters_ok:
  assumes "machine_ok m" and "length p = npar_m m"
  shows "SetParameters p m = Some (unflatten p m) \<and> machine_ok (unflatten p m)"
proof -
  have "dims_ok m" "tables_ok m" using assms(1) by (simp_all add: machine_ok_def)
  moreover have "tables_ok (unflatten p m)"
    using \<open>tables_ok m\<close> by (simp add: tables_ok_def unflatten_def)
  ultimately show ?thesis
    using assms(2) by (simp add: SetParameters_unflatten dims_ok_unflatten machine_ok_def)
qed

lemma ex_machine_reachable:
  "Option.bind (RbmMultival_new ex_storage ex_hilbert 2 0 True True) (SetParameters ex_pars)
     = Some ex_machine"
proof -
  have h: "length (LocalStates ex_hilbert) = LocalSize ex_hilbert" "distinct (LocalStates ex_hilbert)"
    by (simp_all add: ex_hilbert_def)
  from RbmMultival_new_ok [OF h, of ex_storage 2 0 True True]
  obtain m where m: "RbmMultival_new ex_storage ex_hilbert 2 0 True True = Some m"
    and ok: "machine_ok m" and f: "hilbert_m m = ex_hilbert" "nv_m m = 2" "ls_m m = 2" "nh_m m = 2"
      "usea_m m" "useb_m m"
    by (auto simp: ex_hilbert_def)
  have np: "npar_m m = 14"
    using ok f by (simp add: machine_ok_def dims_ok_def off_W_def off_b_def)
  have ci: "confindex_m m = [- 1 \<mapsto> 0, 1 \<mapsto> 1]"
    using m by (simp add: RbmMultival_new_def Init_def Let_def bind_eq_Some_conv fill_confindex_def
        ex_hilbert_def coeff_def ex_dims) auto
  have buf: "thetas_m m = [0, 0]" "lnthetas_m m = [0, 0]" "thetasnew_m m = [0, 0]"
    "lnthetasnew_m m = [0, 0]" "vtilde_m m = [0, 0, 0, 0]"
    using m by (auto simp: RbmMultival_new_def Init_def Let_def bind_eq_Some_conv resize_def
        ex_storage_def ex_hilbert_def ex_dims)
  have T1: "map (\<lambda>t. [- 1, 1 :: real] ! (t mod 2)) [0..<2 * 2] = [- 1, 1, - 1, 1]"
    by code_simp
  have T2: "map (\<lambda>i. (replicate 2 (0::real))[i div 2 := 1]) [0..<2 * 2] = [[1, 0], [1, 0], [0, 1], [0, 1]]"
    by code_simp
  have tabs: "localconfs_m m = [- 1, 1, - 1, 1]" "mask_m m = [[1, 0], [1, 0], [0, 1], [0, 1]]"
    using ok f T1 T2 by (simp_all add: machine_ok_def tables_ok_def ex_hilbert_def)
  have "SetParameters ex_pars m = Some (unflatten ex_pars m)"
    using SetParameters_ok [OF ok, of ex_pars] np by (simp add: ex_pars_def)
  moreover have "unflatten ex_pars m = ex_machine"
    using f np ci tabs buf
    by (intro RbmMultival.equality)
       (simp_all add: unflatten_def ex_machine_def ex_pars_def off_W_def off_b_def ex_dims)
  ultimately show ?thesis using m by simp
qed

section \<open>The claims\<close>

text \<open>
  C1, incremental consistency of the lookup. The general half of the claim, that after
  any sequence of updates the lookup is the one \<open>InitLookup\<close> computes for the resulting
  configuration, fails for an update whose change list names a site twice: line 111
  reads the old value of every occurrence from the unchanged configuration, so on the
  object of the scenario the update of site 0 to \<open>+1\<close>, listed twice, takes the lookup
  \<open>[9, 9]\<close> of \<open>[-1, 1]\<close> to \<open>[13, 13]\<close>, while \<open>InitLookup\<close> gives \<open>[11, 11]\<close> for the resulting
  configuration \<open>[1, 1]\<close>.

  As amended, on an initialised object and a configuration of legal local values:
  (1) for a site \<open>s\<close> and a legal value \<open>x\<close>, \<open>UpdateLookup\<close> with the change list \<open>[s]\<close> and
  the new value \<open>[x]\<close>, applied to the lookup of \<open>InitLookup v\<close>, gives the lookup that
  \<open>InitLookup\<close> computes for \<open>v[s := x]\<close>; (2) after any sequence of updates, each a list
  of sites that names no site twice, with legal new values, and each applied to the
  configuration the previous ones produced, the lookup is the one \<open>InitLookup\<close> computes
  for the resulting configuration. Arithmetic is exact here, so the two are equal.
\<close>

theorem lookup_incremental_consistency:
  assumes ok: "machine_ok m" and legal: "legal_conf m v"
  shows "(s < nv_m m \<and> x \<in> set (LocalStates (hilbert_m m)) \<longrightarrow>
            (\<exists>lt0 m0 lt1 m1 m2.
               InitLookup v m = Some (lt0, m0) \<and>
               UpdateLookup v [s] [x] lt0 m0 = Some (lt1, m1) \<and>
               InitLookup (v[s := x]) m1 = Some (lt1, m2)))
       \<and> (list_all (\<lambda>(tochange, newconf). valid_change m tochange newconf \<and> distinct tochange) us \<longrightarrow>
            (\<exists>lt0 m0 v' lt' m' m''.
               InitLookup v m = Some (lt0, m0) \<and>
               run_updates us v lt0 m0 = Some (v', lt', m') \<and>
               InitLookup v' m' = Some (lt', m'')))"
proof (intro conjI impI)
  let ?m0 = "m\<lparr>vtilde_m := encode m v\<rparr>"
  have init: "InitLookup v m = Some (theta_of m v, ?m0)"
    using ok legal by (rule InitLookup_theta_of)
  have ok0: "machine_ok ?m0" and legal0: "legal_conf ?m0 v"
    using ok legal by simp_all
  {
    assume sx: "s < nv_m m \<and> x \<in> set (LocalStates (hilbert_m m))"
    then have vc: "valid_change ?m0 [s] [x]"
      by (simp add: valid_change_single)
    have upd: "UpdateLookup v [s] [x] (theta_of m v) ?m0 = Some (theta_of m (v[s := x]), ?m0)"
      using UpdateLookup_theta_of [OF ok0 legal0 vc] by (simp add: apply_changes_def)
    have "legal_conf ?m0 (v[s := x])"
      using legal_conf_apply_changes [OF legal0 vc] by (simp add: apply_changes_def)
    then have "InitLookup (v[s := x]) ?m0
        = Some (theta_of m (v[s := x]), ?m0\<lparr>vtilde_m := encode ?m0 (v[s := x])\<rparr>)"
      using InitLookup_theta_of [OF ok0, of "v[s := x]"] by simp
    with init upd
    show "\<exists>lt0 m0 lt1 m1 m2.
               InitLookup v m = Some (lt0, m0) \<and>
               UpdateLookup v [s] [x] lt0 m0 = Some (lt1, m1) \<and>
               InitLookup (v[s := x]) m1 = Some (lt1, m2)"
      by blast
  }
  {
    assume "list_all (\<lambda>(tochange, newconf). valid_change m tochange newconf \<and> distinct tochange) us"
    then have "list_all (\<lambda>(tochange, newconf). valid_change ?m0 tochange newconf \<and> distinct tochange) us"
      by simp
    from run_updates_theta_of [OF ok0 legal0 this]
    obtain v' where run: "run_updates us v (theta_of m v) ?m0 = Some (v', theta_of m v', ?m0)"
      and legal': "legal_conf ?m0 v'" by auto
    have "InitLookup v' ?m0 = Some (theta_of m v', ?m0\<lparr>vtilde_m := encode ?m0 v'\<rparr>)"
      using InitLookup_theta_of [OF ok0 legal'] by simp
    with init run
    show "\<exists>lt0 m0 v' lt' m' m''.
               InitLookup v m = Some (lt0, m0) \<and>
               run_updates us v lt0 m0 = Some (v', lt', m') \<and>
               InitLookup v' m' = Some (lt', m'')"
      by blast
  }
qed

theorem lookup_incremental_consistency_witness:
  "machine_ok ex_machine \<and> legal_conf ex_machine [- 1, 1] \<and>
   map_option fst (InitLookup [- 1, 1] ex_machine) = Some [9, 9] \<and>
   map_option fst (InitLookup [1, 1] ex_machine) = Some [11, 11] \<and>
   (\<exists>lt0 m0 lt1 m1 m2.
      InitLookup [- 1, 1] ex_machine = Some (lt0, m0) \<and>
      UpdateLookup [- 1, 1] [0] [1] lt0 m0 = Some (lt1, m1) \<and>
      InitLookup [1, 1] m1 = Some (lt1, m2)) \<and>
   (\<exists>lt0 m0 v' lt' m' m''.
      InitLookup [- 1, 1] ex_machine = Some (lt0, m0) \<and>
      run_updates [([0], [1]), ([1, 0], [- 1, - 1])] [- 1, 1] lt0 m0 = Some (v', lt', m') \<and>
      InitLookup v' m' = Some (lt', m''))"
proof -
  have sx: "0 < nv_m ex_machine \<and> 1 \<in> set (LocalStates (hilbert_m ex_machine))"
    by code_simp
  have us: "list_all (\<lambda>(tochange, newconf). valid_change ex_machine tochange newconf \<and> distinct tochange)
      [([0], [1]), ([1, 0], [- 1, - 1])]"
    by code_simp
  have v1: "map_option fst (InitLookup [- 1, 1] ex_machine) = Some [9, 9]" by code_simp
  have v2: "map_option fst (InitLookup [1, 1] ex_machine) = Some [11, 11]" by code_simp
  from lookup_incremental_consistency [OF ex_machine_ok ex_legal, of 0 1 "[([0], [1]), ([1, 0], [- 1, - 1])]"]
    sx us ex_machine_ok ex_legal v1 v2
  show ?thesis by simp
qed

text \<open>The counterexample to C1 as stated. On the object of the scenario and the configuration
  \<open>[-1, 1]\<close>, whose lookup is \<open>[9, 9]\<close>, the single update with the change list \<open>[0, 0]\<close> and the
  new values \<open>[1, 1]\<close> (sites in range, legal values) leads to the configuration \<open>[1, 1]\<close> and
  the lookup \<open>[13, 13]\<close>, and \<open>InitLookup\<close> on the resulting object and configuration
  returns \<open>[11, 11]\<close>. With the new values \<open>[1, - 1]\<close> the configuration is \<open>[-1, 1]\<close> again and
  the lookup is \<open>[11, 11]\<close>, not \<open>[9, 9]\<close>.\<close>

theorem lookup_incremental_consistency_counterexample:
  "machine_ok ex_machine \<and> legal_conf ex_machine [- 1, 1] \<and>
   valid_change ex_machine [0, 0] [1, 1] \<and> valid_change ex_machine [0, 0] [1, - 1] \<and>
   map_option fst (InitLookup [- 1, 1] ex_machine) = Some [9, 9] \<and>
   map_option (\<lambda>r. (fst r, fst (snd r)))
     (Option.bind (InitLookup [- 1, 1] ex_machine)
        (\<lambda>r. run_updates [([0, 0], [1, 1])] [- 1, 1] (fst r) (snd r)))
     = Some ([1, 1], [13, 13]) \<and>
   map_option fst
     (Option.bind
        (Option.bind (InitLookup [- 1, 1] ex_machine)
           (\<lambda>r. run_updates [([0, 0], [1, 1])] [- 1, 1] (fst r) (snd r)))
        (\<lambda>r. InitLookup (fst r) (snd (snd r))))
     = Some [11, 11] \<and>
   [13, 13] \<noteq> [11, 11 :: complex] \<and>
   map_option (\<lambda>r. (fst r, fst (snd r)))
     (Option.bind (InitLookup [- 1, 1] ex_machine)
        (\<lambda>r. run_updates [([0, 0], [1, - 1])] [- 1, 1] (fst r) (snd r)))
     = Some ([- 1, 1], [11, 11]) \<and>
   [11, 11] \<noteq> [9, 9 :: complex]"
proof -
  have valid: "valid_change ex_machine [0, 0] [1, 1]" "valid_change ex_machine [0, 0] [1, - 1]"
    by code_simp+
  have base: "map_option fst (InitLookup [- 1, 1] ex_machine) = Some [9, 9]"
    by code_simp
  have cached: "map_option (\<lambda>r. (fst r, fst (snd r)))
     (Option.bind (InitLookup [- 1, 1] ex_machine)
        (\<lambda>r. run_updates [([0, 0], [1, 1])] [- 1, 1] (fst r) (snd r)))
     = Some ([1, 1], [13, 13])"
    by code_simp
  have fresh: "map_option fst
     (Option.bind
        (Option.bind (InitLookup [- 1, 1] ex_machine)
           (\<lambda>r. run_updates [([0, 0], [1, 1])] [- 1, 1] (fst r) (snd r)))
        (\<lambda>r. InitLookup (fst r) (snd (snd r))))
     = Some [11, 11]"
    by code_simp
  have again: "map_option (\<lambda>r. (fst r, fst (snd r)))
     (Option.bind (InitLookup [- 1, 1] ex_machine)
        (\<lambda>r. run_updates [([0, 0], [1, - 1])] [- 1, 1] (fst r) (snd r)))
     = Some ([- 1, 1], [11, 11])"
    by code_simp
  have ne: "[13, 13] \<noteq> [11, 11 :: complex]" "[11, 11] \<noteq> [9, 9 :: complex]"
    by simp_all
  from ex_machine_ok ex_legal valid base cached fresh again ne show ?thesis
    by simp
qed

text \<open>
  C2, the batch of ratios. \<open>LogValDiff_spec\<close> is the specification's reading: the base
  lookup is \<open>theta_of m v\<close> (what \<open>InitLookup v\<close> returns); for move \<open>k\<close> the lookup
  \<open>theta_moved\<close> is the base lookup with the row updates of that move applied (what
  \<open>UpdateLookup\<close> makes of the base lookup and the base configuration), \<open>bias_delta\<close> is the
  sum over the changed sites of \<open>a\<close> at the new extended index minus \<open>a\<close> at the old one, and
  the result is \<open>bias_delta + SumLogCosh theta' - SumLogCosh theta_base\<close>. Every move is
  read against the same base configuration \<open>v\<close>. On an initialised object, a configuration
  of legal values and moves of sites in range with legal new values, \<open>LogValDiff\<close> returns
  exactly that vector, one scalar per move.
\<close>

theorem LogValDiff_refines_spec:
  assumes ok: "machine_ok m" and legal: "legal_conf m v"
    and moves: "list_all2 (valid_change m) tochange newconf"
  shows "map_option fst (LogValDiff SumLogCosh v tochange newconf m)
           = Some (LogValDiff_spec SumLogCosh m v tochange newconf)
       \<and> length (LogValDiff_spec SumLogCosh m v tochange newconf) = length tochange
       \<and> map_option fst (InitLookup v m) = Some (theta_of m v)
       \<and> (\<forall>k<length tochange.
             map_option fst (UpdateLookup v (tochange ! k) (newconf ! k) (theta_of m v) m)
               = Some (theta_moved m v (tochange ! k) (newconf ! k)))"
proof (intro conjI allI impI)
  from LogValDiff_eq_spec [OF ok legal moves, of SumLogCosh]
  show "map_option fst (LogValDiff SumLogCosh v tochange newconf m)
           = Some (LogValDiff_spec SumLogCosh m v tochange newconf)"
    by auto
  show "length (LogValDiff_spec SumLogCosh m v tochange newconf) = length tochange"
    by simp
  show "map_option fst (InitLookup v m) = Some (theta_of m v)"
    using ok legal by (simp add: InitLookup_theta_of)
  fix k assume "k < length tochange"
  then have "valid_change m (tochange ! k) (newconf ! k)"
    using moves by (simp add: list_all2_conv_all_nth)
  then show "map_option fst (UpdateLookup v (tochange ! k) (newconf ! k) (theta_of m v) m)
               = Some (theta_moved m v (tochange ! k) (newconf ! k))"
    using ok legal by (simp add: UpdateLookup_theta_moved)
qed

theorem LogValDiff_refines_spec_witness:
  "machine_ok ex_machine \<and> legal_conf ex_machine [- 1, 1] \<and>
   list_all2 (valid_change ex_machine) [[0], [], [1], [0, 1]] [[1], [], [- 1], [1, - 1]] \<and>
   map_option fst (LogValDiff sum_list [- 1, 1] [[0], [], [1], [0, 1]] [[1], [], [- 1], [1, - 1]] ex_machine)
     = Some (LogValDiff_spec sum_list ex_machine [- 1, 1] [[0], [], [1], [0, 1]] [[1], [], [- 1], [1, - 1]]) \<and>
   map_option fst (LogValDiff sum_list [- 1, 1] [[0], [], [1], [0, 1]] [[1], [], [- 1], [1, - 1]] ex_machine)
     = Some [5, 0, - 5, 0]"
proof -
  have moves: "list_all2 (valid_change ex_machine) [[0], [], [1], [0, 1]] [[1], [], [- 1], [1, - 1]]"
    by code_simp
  have val: "map_option fst (LogValDiff sum_list [- 1, 1] [[0], [], [1], [0, 1]] [[1], [], [- 1], [1, - 1]] ex_machine)
     = Some [5, 0, - 5, 0]"
    by code_simp
  from LogValDiff_refines_spec [OF ex_machine_ok ex_legal moves, of sum_list] ex_machine_ok ex_legal moves val
  show ?thesis by simp
qed

text \<open>
  C3, parameter round trip. On an object with the sizes \<open>Init\<close> gives it (whatever the two
  bias flags are), \<open>SetParameters p\<close> followed by \<open>GetParameters\<close> returns exactly \<open>p\<close>, for
  every vector \<open>p\<close> of length \<open>npar\<close>; what the fresh result vector held does not matter.
\<close>

theorem parameter_round_trip:
  assumes "dims_ok m" and "length p = npar_m m"
  shows "Option.bind (SetParameters p m) (GetParameters fresh) = Some p"
proof -
  have set: "SetParameters p m = Some (unflatten p m)"
    using assms by (simp add: SetParameters_unflatten)
  have ok': "dims_ok (unflatten p m)"
    using assms(1) by (rule dims_ok_unflatten)
  have np: "npar_m (unflatten p m) = npar_m m"
    by (simp add: unflatten_def)
  have "map (flat_at (unflatten p m)) [0..<npar_m m] = p"
    using assms by (intro nth_equalityI) (simp_all add: flat_at_unflatten)
  then have "GetParameters fresh (unflatten p m) = Some p"
    using GetParameters_flat [OF ok', of fresh] np by simp
  with set show ?thesis by simp
qed

theorem parameter_round_trip_witness:
  "dims_ok ex_machine \<and> length ex_pars = npar_m ex_machine \<and>
   Option.bind (SetParameters ex_pars ex_machine) (GetParameters (\<lambda>_. 0)) = Some ex_pars"
proof -
  have ok: "dims_ok ex_machine" by code_simp
  have len: "length ex_pars = npar_m ex_machine" by code_simp
  from ok len parameter_round_trip [OF ok len, of "\<lambda>_. 0"] show ?thesis by simp
qed

text \<open>
  C4, layout and values of the gradient. \<open>grad_params m v theta\<close> is the object \<open>m\<close> with
  \<open>a\<close> replaced by the encoding \<open>vtilde\<close> of \<open>v\<close>, \<open>b\<close> by \<open>tanh theta\<close> and \<open>W\<close> by the matrix of
  \<open>tanh (theta j) * vtilde i\<close>. On an initialised object, a configuration of legal values
  and a lookup of length \<open>nh\<close>, \<open>DerLogSingle\<close> returns the flattened parameters of that
  object: \<open>a\<close> if enabled, then \<open>b\<close> if enabled, then the rows of \<open>W\<close>, which is the very vector
  \<open>GetParameters\<close> returns on it, of length \<open>npar\<close>. With an empty lookup the lookup of
  \<open>InitLookup\<close> is used. The encoding is one-hot: in the block of site \<open>s\<close> it is 1 at the
  index of \<open>v ! s\<close> and 0 elsewhere.
\<close>

theorem gradient_layout:
  assumes ok: "machine_ok m" and legal: "legal_conf m v" and lt: "length theta = nh_m m"
  shows "map_option fst (DerLogSingle v (Some theta) m) = Some (flatten (grad_params m v theta))
       \<and> map_option fst (DerLogSingle v None m) = Some (flatten (grad_params m v (theta_of m v)))
       \<and> GetParameters fresh (grad_params m v theta) = Some (flatten (grad_params m v theta))
       \<and> length (flatten (grad_params m v theta)) = npar_m m
       \<and> (\<forall>i<nv_m m * ls_m m. a_m (grad_params m v theta) ! i = complex_of_real (encode m v ! i))
       \<and> (\<forall>j<nh_m m. b_m (grad_params m v theta) ! j = tanh (theta ! j))
       \<and> (\<forall>i<nv_m m * ls_m m. \<forall>j<nh_m m.
             W_m (grad_params m v theta) ! i ! j = tanh (theta ! j) * complex_of_real (encode m v ! i))
       \<and> (\<forall>s<nv_m m. \<forall>q<ls_m m.
             encode m v ! (ls_m m * s + q) = (if q = index_of m (v ! s) then 1 else 0))"
proof -
  have tab: "tables_ok m" and dims: "dims_ok m"
    using ok by (simp_all add: machine_ok_def)
  have lv: "length v = nv_m m" using legal by (simp add: legal_conf_def)
  let ?g = "grad_params m v theta"
  have okg: "dims_ok ?g" using dims lt by (rule dims_ok_grad_params)
  have 1: "map_option fst (DerLogSingle v (Some theta) m) = Some (flatten ?g)"
    using DerLogSingleImpl_flatten [OF ok lv lt] by (simp add: DerLogSingle_def)
  have 2: "map_option fst (DerLogSingle v None m) = Some (flatten (grad_params m v (theta_of m v)))"
  proof -
    let ?m1 = "m\<lparr>vtilde_m := encode m v\<rparr>"
    have "DerLogSingleImpl v (theta_of m v) ?m1
        = Some (flatten (grad_params ?m1 v (theta_of m v)),
                ?m1\<lparr>vtilde_m := encode ?m1 v, lnthetas_m := map tanh (theta_of m v)\<rparr>)"
      using ok lv by (intro DerLogSingleImpl_flatten) simp_all
    then show ?thesis
      using InitLookup_theta_of [OF ok legal] by (simp add: DerLogSingle_def)
  qed
  have 3: "GetParameters fresh ?g = Some (flatten ?g)"
    using okg by (rule GetParameters_flatten)
  have "length (flatten ?g) = length (map (flat_at ?g) [0..<npar_m ?g])"
    using flatten_flat_at [OF okg] by simp
  then have 4: "length (flatten ?g) = npar_m m"
    by (simp add: grad_params_def)
  have 5: "\<forall>i<nv_m m * ls_m m. a_m ?g ! i = complex_of_real (encode m v ! i)"
    by (simp add: grad_params_def encode_def)
  have 6: "\<forall>j<nh_m m. b_m ?g ! j = tanh (theta ! j)"
    using lt by (simp add: grad_params_def)
  have 7: "\<forall>i<nv_m m * ls_m m. \<forall>j<nh_m m.
             W_m ?g ! i ! j = tanh (theta ! j) * complex_of_real (encode m v ! i)"
    by (simp add: grad_params_def)
  have 8: "\<forall>s<nv_m m. \<forall>q<ls_m m.
             encode m v ! (ls_m m * s + q) = (if q = index_of m (v ! s) then 1 else 0)"
    using encode_one_hot [OF tab legal] by blast
  from 1 2 3 4 5 6 7 8 show ?thesis by blast
qed

theorem gradient_layout_witness:
  "machine_ok ex_machine \<and> legal_conf ex_machine [- 1, 1] \<and>
   map_option fst (DerLogSingle [- 1, 1] (Some [1, 2]) ex_machine)
     = Some [1, 0, 0, 1, tanh 1, tanh 2, tanh 1, tanh 2, 0, 0, 0, 0, tanh 1, tanh 2] \<and>
   npar_m ex_machine = 14"
proof -
  have lt: "length [1, 2 :: complex] = nh_m ex_machine" by code_simp
  have np: "npar_m ex_machine = 14" by code_simp
  have "flatten (grad_params ex_machine [- 1, 1] [1, 2])
      = [1, 0, 0, 1, tanh 1, tanh 2, tanh 1, tanh 2, 0, 0, 0, 0, tanh 1, tanh 2]"
    by (simp add: flatten_def grad_params_def ex_encode ex_dims)
  with gradient_layout [OF ex_machine_ok ex_legal lt, of "\<lambda>_. 0"] ex_machine_ok ex_legal np
  show ?thesis by simp
qed

text \<open>
  C5, dimension formula. After \<open>Init\<close>, whatever the two bias flags are, \<open>npar\<close> is
  \<open>nv * ls * nh\<close>, plus \<open>nv * ls\<close> if the visible bias is enabled, plus \<open>nh\<close> if the hidden
  bias is enabled; \<open>GetParameters\<close> returns the flattened parameters (\<open>a\<close> if enabled, then
  \<open>b\<close> if enabled, then the rows of \<open>W\<close>), and that vector has length \<open>npar\<close>.
\<close>

theorem npar_dimension_formula:
  assumes "Init st m0 = Some m"
  shows "npar_m m = nv_m m * ls_m m * nh_m m
           + (if usea_m m then nv_m m * ls_m m else 0) + (if useb_m m then nh_m m else 0)
         \<and> GetParameters fresh m = Some (flatten m) \<and> length (flatten m) = npar_m m"
proof -
  have ok: "dims_ok m" using assms by (rule Init_dims_ok)
  have "length (flatten m) = length (map (flat_at m) [0..<npar_m m])"
    using flatten_flat_at [OF ok] by simp
  then have "length (flatten m) = npar_m m" by simp
  moreover have "npar_m m = nv_m m * ls_m m * nh_m m
           + (if usea_m m then nv_m m * ls_m m else 0) + (if useb_m m then nh_m m else 0)"
    using Init_fields [OF assms] by (simp add: mult.commute mult.left_commute)
  ultimately show ?thesis
    using GetParameters_flatten [OF ok] by simp
qed

theorem npar_dimension_formula_witness:
  "map_option npar_m (Init ex_storage ex_blank) = Some (2 * 2 * 3 + 2 * 2 + 0) \<and>
   map_option (\<lambda>m. map_option length (GetParameters (\<lambda>_. 0) m)) (Init ex_storage ex_blank) = Some (Some 16)"
proof -
  have "map_option npar_m (Init ex_storage ex_blank) = Some 16" by code_simp
  then obtain m where m: "Init ex_storage ex_blank = Some m" and n: "npar_m m = 16"
    by auto
  from npar_dimension_formula [OF m, of "\<lambda>_. 0"] m n show ?thesis by simp
qed

text \<open>
  C6, zero-move identity. Whatever the object and the arguments are, when \<open>LogValDiff\<close>
  returns, the result of every move whose change list is empty is the complex number 0:
  the coefficient is set to zero at the start and never written again. On an
  initialised object and a configuration of legal values, the batch \<open>[[]]\<close> returns \<open>[0]\<close>.
\<close>

theorem zero_move_identity:
  "(LogValDiff SumLogCosh v tochange newconf m = Some (res, m') \<and> k < length tochange \<and> tochange ! k = []
      \<longrightarrow> res ! k = 0)
   \<and> (machine_ok m \<and> legal_conf m v
      \<longrightarrow> map_option fst (LogValDiff SumLogCosh v [[]] [[]] m) = Some [0])"
proof (intro conjI impI)
  assume "LogValDiff SumLogCosh v tochange newconf m = Some (res, m') \<and> k < length tochange \<and> tochange ! k = []"
  then show "res ! k = 0"
    using LogValDiff_frame [of SumLogCosh v tochange newconf m res m'] by simp
next
  assume a: "machine_ok m \<and> legal_conf m v"
  have "list_all2 (valid_change m) [[]] [[]]" by (simp add: valid_change_def)
  from LogValDiff_eq_spec [OF _ _ this, of v SumLogCosh] a
  obtain X where r: "LogValDiff SumLogCosh v [[]] [[]] m
      = Some (LogValDiff_spec SumLogCosh m v [[]] [[]],
              m\<lparr>vtilde_m := encode m v, thetas_m := theta_of m v, thetasnew_m := X\<rparr>)"
    by blast
  from LogValDiff_frame [OF r]
  have "length (LogValDiff_spec SumLogCosh m v [[]] [[]]) = 1"
    and "LogValDiff_spec SumLogCosh m v [[]] [[]] ! 0 = 0" by simp_all
  then have "LogValDiff_spec SumLogCosh m v [[]] [[]] = [0]"
    by (cases "LogValDiff_spec SumLogCosh m v [[]] [[]]") simp_all
  with r show "map_option fst (LogValDiff SumLogCosh v [[]] [[]] m) = Some [0]" by simp
qed

theorem zero_move_identity_witness:
  "machine_ok ex_machine \<and> legal_conf ex_machine [- 1, 1] \<and>
   map_option fst (LogValDiff sum_list [- 1, 1] [[]] [[]] ex_machine) = Some [0] \<and>
   map_option (\<lambda>r. fst r ! 1) (LogValDiff sum_list [- 1, 1] [[0], [], [1]] [[1], [], [- 1]] ex_machine) = Some 0"
proof -
  have "map_option fst (LogValDiff sum_list [- 1, 1] [[0], [], [1]] [[1], [], [- 1]] ex_machine) = Some [5, 0, - 5]"
    by code_simp
  then obtain res m' where r: "LogValDiff sum_list [- 1, 1] [[0], [], [1]] [[1], [], [- 1]] ex_machine = Some (res, m')"
    by auto
  from zero_move_identity [of sum_list "[- 1, 1]" "[[0], [], [1]]" "[[1], [], [- 1]]" ex_machine res m' 1, THEN conjunct1]
    zero_move_identity [of sum_list "[- 1, 1]" _ _ ex_machine, THEN conjunct2]
    r ex_machine_ok ex_legal
  show ?thesis by simp
qed

text \<open>
  C7, a record whose dimensions disagree with the configuration space. The claim that
  the object is left as it was fails: \<open>Load\<close> assigns \<open>nv_\<close> (line 293) and \<open>ls_\<close> (line 302)
  from the record before it compares them, so the object of the scenario, loaded from a
  record with \<open>Nvisible = 3\<close>, throws and is left with \<open>nv = 3\<close>.

  As amended: when the type tag is right and \<open>Nvisible\<close> or \<open>LocalSize\<close> of the record
  disagrees with the configuration space, \<open>Load\<close> throws the incompatibility error; \<open>a\<close>,
  \<open>b\<close>, \<open>W\<close>, \<open>nh\<close>, \<open>npar\<close> and the two bias flags (every member but \<open>nv\<close> and \<open>ls\<close>) are as
  before the call; \<open>nv\<close> holds the record's \<open>Nvisible\<close> when the record has one, and \<open>ls\<close> is
  either unchanged or the record's \<open>LocalSize\<close>.
\<close>

theorem load_incompatible:
  assumes tag: "j_Name pars = Some ''RbmMultival''"
    and bad: "(\<exists>n. j_Nvisible pars = Some n \<and> n \<noteq> Size (hilbert_m m))
            \<or> (\<exists>l. j_LocalSize pars = Some l \<and> l \<noteq> LocalSize (hilbert_m m))"
  shows "\<exists>m'. Load absent_int absent_double st pars m = Thrown incompatible m'
           \<and> m' = m\<lparr>nv_m := nv_m m', ls_m := ls_m m'\<rparr>
           \<and> a_m m' = a_m m \<and> b_m m' = b_m m \<and> W_m m' = W_m m \<and> nh_m m' = nh_m m
           \<and> npar_m m' = npar_m m \<and> usea_m m' = usea_m m \<and> useb_m m' = useb_m m
           \<and> nv_m m' = (case j_Nvisible pars of Some n \<Rightarrow> n | None \<Rightarrow> nv_m m)
           \<and> (ls_m m' = ls_m m \<or> j_LocalSize pars = Some (ls_m m'))"
proof -
  let ?m1 = "case j_Nvisible pars of Some n \<Rightarrow> m\<lparr>nv_m := n\<rparr> | None \<Rightarrow> m"
  show ?thesis
  proof (cases "nv_m ?m1 \<noteq> Size (hilbert_m m)")
    case True
    then have "Load absent_int absent_double st pars m = Thrown incompatible ?m1"
      using tag by (auto simp: Load_def FieldExists_def incompatible_def Let_def split: option.splits)
    then show ?thesis
      by (intro exI [of _ ?m1]) (auto split: option.splits)
  next
    case False
    with bad obtain l where l: "j_LocalSize pars = Some l" "l \<noteq> LocalSize (hilbert_m m)"
      by (auto split: option.splits)
    have h1: "hilbert_m ?m1 = hilbert_m m" by (simp split: option.splits)
    have "Load absent_int absent_double st pars m = Thrown incompatible (?m1\<lparr>ls_m := l\<rparr>)"
      using tag False l h1
      by (auto simp: Load_def FieldExists_def incompatible_def Let_def split: option.splits)
    then show ?thesis
      using l by (intro exI [of _ "?m1\<lparr>ls_m := l\<rparr>"]) (auto split: option.splits)
  qed
qed

theorem load_incompatible_witness:
  "j_Name (ex_record\<lparr>j_LocalSize := Some 3\<rparr>) = Some ''RbmMultival'' \<and>
   j_LocalSize (ex_record\<lparr>j_LocalSize := Some 3\<rparr>) = Some 3 \<and> 3 \<noteq> LocalSize (hilbert_m ex_machine) \<and>
   Load ex_absent ex_absent ex_storage (ex_record\<lparr>j_LocalSize := Some 3\<rparr>) ex_machine
     = Thrown incompatible (ex_machine\<lparr>ls_m := 3\<rparr>)"
proof -
  have tag: "j_Name (ex_record\<lparr>j_LocalSize := Some 3\<rparr>) = Some ''RbmMultival''"
    by (simp add: ex_record_def)
  have ls: "j_LocalSize (ex_record\<lparr>j_LocalSize := Some 3\<rparr>) = Some 3" by simp
  have ne: "3 \<noteq> LocalSize (hilbert_m ex_machine)"
    by (simp add: ex_machine_def ex_hilbert_def)
  have bad: "(\<exists>n. j_Nvisible (ex_record\<lparr>j_LocalSize := Some 3\<rparr>) = Some n \<and> n \<noteq> Size (hilbert_m ex_machine))
            \<or> (\<exists>l. j_LocalSize (ex_record\<lparr>j_LocalSize := Some 3\<rparr>) = Some l \<and> l \<noteq> LocalSize (hilbert_m ex_machine))"
    using ne by simp
  from load_incompatible [OF tag bad, of ex_absent ex_absent ex_storage]
  obtain m' where r: "Load ex_absent ex_absent ex_storage (ex_record\<lparr>j_LocalSize := Some 3\<rparr>) ex_machine = Thrown incompatible m'"
    and m': "m' = ex_machine\<lparr>nv_m := nv_m m', ls_m := ls_m m'\<rparr>"
    and nv: "nv_m m' = (case j_Nvisible (ex_record\<lparr>j_LocalSize := Some 3\<rparr>) of Some n \<Rightarrow> n | None \<Rightarrow> nv_m ex_machine)"
    and l: "ls_m m' = ls_m ex_machine \<or> j_LocalSize (ex_record\<lparr>j_LocalSize := Some 3\<rparr>) = Some (ls_m m')"
    by blast
  have "Load ex_absent ex_absent ex_storage (ex_record\<lparr>j_LocalSize := Some 3\<rparr>) ex_machine
     = Thrown incompatible (ex_machine\<lparr>ls_m := 3\<rparr>)"
    by (simp add: Load_def ex_record_def FieldExists_def incompatible_def ex_machine_def ex_hilbert_def)
  with tag ls ne r show ?thesis by simp
qed

text \<open>The counterexample to C7 as stated: the record of the scenario with \<open>Nvisible = 3\<close>, loaded
  into the object of the scenario, throws and leaves \<open>nv = 3\<close> where it was 2.\<close>

theorem load_incompatible_counterexample:
  "Load ex_absent ex_absent ex_storage (ex_record\<lparr>j_Nvisible := Some 3\<rparr>) ex_machine
     = Thrown incompatible (ex_machine\<lparr>nv_m := 3\<rparr>)
   \<and> nv_m (ex_machine\<lparr>nv_m := 3\<rparr>) \<noteq> nv_m ex_machine
   \<and> Load ex_absent ex_absent ex_storage (ex_record\<lparr>j_Nvisible := Some 3\<rparr>) ex_machine \<noteq> Thrown incompatible ex_machine"
proof -
  have 1: "Load ex_absent ex_absent ex_storage (ex_record\<lparr>j_Nvisible := Some 3\<rparr>) ex_machine
     = Thrown incompatible (ex_machine\<lparr>nv_m := 3\<rparr>)"
    by (simp add: Load_def ex_record_def FieldExists_def incompatible_def ex_machine_def ex_hilbert_def)
  have 2: "nv_m (ex_machine\<lparr>nv_m := 3\<rparr>) \<noteq> nv_m ex_machine"
    by (simp add: ex_machine_def)
  have 3: "ex_machine\<lparr>nv_m := 3\<rparr> \<noteq> ex_machine"
    using 2 by (metis)
  from 1 2 3 show ?thesis by simp
qed

text \<open>
  C8, the frame of \<open>LogValDiff\<close>. The lookup made by \<open>InitLookup\<close> is a value the caller
  holds: it is neither an argument nor a result of \<open>LogValDiff\<close>, which therefore cannot
  change it. Whatever the object and the arguments are, a call that returns leaves \<open>a\<close>,
  \<open>b\<close> and \<open>W\<close> as they were, and with them every member but the buffers \<open>thetas_\<close>,
  \<open>thetasnew_\<close> and \<open>vtilde_\<close> and the keys \<open>confindex_\<close> gains, each with the index a lookup of
  it gave before; a second identical call on the object it leaves returns the same
  results; and \<open>InitLookup\<close> returns on that object the lookup it returned before, for
  every configuration. On an initialised object, a configuration of legal values and
  moves of sites in range with legal values, the call does return.
\<close>

theorem LogValDiff_frame_property:
  "(LogValDiff SumLogCosh v tochange newconf m = Some (res, m') \<longrightarrow>
      a_m m' = a_m m \<and> b_m m' = b_m m \<and> W_m m' = W_m m \<and> buffers_only m m'
      \<and> (\<exists>m''. LogValDiff SumLogCosh v tochange newconf m' = Some (res, m''))
      \<and> (\<forall>c. map_option fst (InitLookup c m') = map_option fst (InitLookup c m)))
   \<and> (machine_ok m \<and> legal_conf m v \<and> list_all2 (valid_change m) tochange newconf \<longrightarrow>
      (\<exists>r m1. LogValDiff SumLogCosh v tochange newconf m = Some (r, m1)))"
proof (rule conjI; rule impI)
  assume r: "LogValDiff SumLogCosh v tochange newconf m = Some (res, m')"
  from LogValDiff_frame [OF r] have fr: "buffers_only m m'" by simp
  from LogValDiff_sim [OF fr, of SumLogCosh v tochange newconf]
  have "\<exists>m''. LogValDiff SumLogCosh v tochange newconf m' = Some (res, m'')"
    unfolding r by (cases rule: option.rel_cases) auto
  moreover have "\<forall>c. map_option fst (InitLookup c m') = map_option fst (InitLookup c m)"
    using InitLookup_sim [OF fr] by simp
  ultimately show "a_m m' = a_m m \<and> b_m m' = b_m m \<and> W_m m' = W_m m \<and> buffers_only m m'
      \<and> (\<exists>m''. LogValDiff SumLogCosh v tochange newconf m' = Some (res, m''))
      \<and> (\<forall>c. map_option fst (InitLookup c m') = map_option fst (InitLookup c m))"
    using fr by (simp add: buffers_only_def)
next
  assume "machine_ok m \<and> legal_conf m v \<and> list_all2 (valid_change m) tochange newconf"
  then show "\<exists>r m1. LogValDiff SumLogCosh v tochange newconf m = Some (r, m1)"
    using LogValDiff_eq_spec [of m v tochange newconf SumLogCosh] by blast
qed

theorem LogValDiff_frame_property_witness:
  "map_option (\<lambda>r. (fst r, a_m (snd r), b_m (snd r), W_m (snd r)))
     (LogValDiff sum_list [- 1, 1] [[0], [], [1]] [[1], [], [- 1]] ex_machine)
     = Some ([5, 0, - 5], a_m ex_machine, b_m ex_machine, W_m ex_machine) \<and>
   map_option fst (Option.bind (LogValDiff sum_list [- 1, 1] [[0], [], [1]] [[1], [], [- 1]] ex_machine)
      (\<lambda>r. LogValDiff sum_list [- 1, 1] [[0], [], [1]] [[1], [], [- 1]] (snd r)))
     = Some [5, 0, - 5]"
proof -
  have val: "map_option fst (LogValDiff sum_list [- 1, 1] [[0], [], [1]] [[1], [], [- 1]] ex_machine) = Some [5, 0, - 5]"
    by code_simp
  then obtain res m' where r: "LogValDiff sum_list [- 1, 1] [[0], [], [1]] [[1], [], [- 1]] ex_machine = Some (res, m')"
    and res: "res = [5, 0, - 5]"
    by auto
  from LogValDiff_frame_property [of sum_list "[- 1, 1]" "[[0], [], [1]]" "[[1], [], [- 1]]" ex_machine res m',
      THEN conjunct1] r
  obtain m2 where fr: "a_m m' = a_m ex_machine" "b_m m' = b_m ex_machine" "W_m m' = W_m ex_machine"
    and "LogValDiff sum_list [- 1, 1] [[0], [], [1]] [[1], [], [- 1]] m' = Some (res, m2)"
    by auto
  with r res show ?thesis by simp
qed

text \<open>
  C9, a site named more than once in one \<open>UpdateLookup\<close> call. For any change list of
  sites in range with legal new values (repetitions allowed), the new lookup is the old
  one minus, for every occurrence \<open>s\<close>, the row of \<open>W\<close> for the value the unchanged input
  \<open>v\<close> has at the site \<open>tochange ! s\<close>, plus the row of \<open>W\<close> for the listed value
  \<open>newconf ! s\<close>. For the list \<open>[s, s]\<close> with the values \<open>[x, y]\<close> this is not what the chain of
  the two single updates gives: the two results differ by the row for \<open>x\<close> minus the row
  for \<open>v ! s\<close>.
\<close>

theorem update_lookup_repeated_site:
  assumes ok: "machine_ok m" and legal: "legal_conf m v"
    and valid: "valid_change m tochange newconf" and lt: "length lt = nh_m m"
  shows "UpdateLookup v tochange newconf lt m
           = Some (map (\<lambda>j. lt ! j - rows_removed m v tochange j + rows_added m tochange newconf j)
                     [0..<nh_m m], m)
       \<and> (s < nv_m m \<and> x \<in> set (LocalStates (hilbert_m m)) \<and> y \<in> set (LocalStates (hilbert_m m)) \<longrightarrow>
            (\<exists>joint chain.
               UpdateLookup v [s, s] [x, y] lt m = Some (joint, m) \<and>
               run_updates [([s], [x]), ([s], [y])] v lt m = Some (v[s := y], chain, m) \<and>
               length joint = nh_m m \<and> length chain = nh_m m \<and>
               (\<forall>j<nh_m m. joint ! j = chain ! j + (W_at m s x j - W_at m s (v ! s) j))))"
proof (intro conjI impI)
  show "UpdateLookup v tochange newconf lt m
           = Some (map (\<lambda>j. lt ! j - rows_removed m v tochange j + rows_added m tochange newconf j)
                     [0..<nh_m m], m)"
    using ok legal valid lt by (rule UpdateLookup_rows)
next
  assume sxy: "s < nv_m m \<and> x \<in> set (LocalStates (hilbert_m m)) \<and> y \<in> set (LocalStates (hilbert_m m))"
  let ?joint = "map (\<lambda>j. lt ! j - rows_removed m v [s, s] j + rows_added m [s, s] [x, y] j) [0..<nh_m m]"
  let ?lt1 = "map (\<lambda>j. lt ! j - W_at m s (v ! s) j + W_at m s x j) [0..<nh_m m]"
  let ?chain = "map (\<lambda>j. ?lt1 ! j - W_at m s (v[s := x] ! s) j + W_at m s y j) [0..<nh_m m]"
  have lv: "length v = nv_m m" using legal by (simp add: legal_conf_def)
  have "valid_change m [s, s] [x, y]"
    using sxy by (simp add: valid_change_def)
  then have joint: "UpdateLookup v [s, s] [x, y] lt m = Some (?joint, m)"
    using ok legal lt by (intro UpdateLookup_rows)
  have u1: "UpdateLookup v [s] [x] lt m = Some (?lt1, m)"
    using ok legal sxy lt by (intro UpdateLookup_single) simp_all
  have legal1: "legal_conf m (v[s := x])"
    using legal sxy by (intro legal_conf_update) simp_all
  have u2: "UpdateLookup (v[s := x]) [s] [y] ?lt1 m = Some (?chain, m)"
    using ok legal1 sxy by (intro UpdateLookup_single) simp_all
  have chain: "run_updates [([s], [x]), ([s], [y])] v lt m = Some (v[s := y], ?chain, m)"
    by (simp add: u1 u2 apply_changes_def)
  have "\<forall>j<nh_m m. ?joint ! j = ?chain ! j + (W_at m s x j - W_at m s (v ! s) j)"
    using sxy lv by (simp add: rows_removed_def rows_added_def)
  with joint chain
  show "\<exists>joint chain.
               UpdateLookup v [s, s] [x, y] lt m = Some (joint, m) \<and>
               run_updates [([s], [x]), ([s], [y])] v lt m = Some (v[s := y], chain, m) \<and>
               length joint = nh_m m \<and> length chain = nh_m m \<and>
               (\<forall>j<nh_m m. joint ! j = chain ! j + (W_at m s x j - W_at m s (v ! s) j))"
    by (intro exI [of _ ?joint] exI [of _ ?chain]) simp
qed

theorem update_lookup_repeated_site_witness:
  "machine_ok ex_machine \<and> legal_conf ex_machine [- 1, 1] \<and> valid_change ex_machine [0, 0] [1, - 1] \<and>
   map_option fst (UpdateLookup [- 1, 1] [0, 0] [1, - 1] [9, 9] ex_machine)
     = Some (map (\<lambda>j. [9, 9] ! j - rows_removed ex_machine [- 1, 1] [0, 0] j
                        + rows_added ex_machine [0, 0] [1, - 1] j) [0..<2]) \<and>
   map_option fst (UpdateLookup [- 1, 1] [0, 0] [1, - 1] [9, 9] ex_machine) = Some [11, 11] \<and>
   map_option (\<lambda>r. (fst r, fst (snd r))) (run_updates [([0], [1]), ([0], [- 1])] [- 1, 1] [9, 9] ex_machine)
     = Some ([- 1, 1], [9, 9])"
proof -
  have valid: "valid_change ex_machine [0, 0] [1, - 1]" by code_simp
  have lt: "length [9, 9 :: complex] = nh_m ex_machine" by code_simp
  have nh: "nh_m ex_machine = 2" by code_simp
  have j: "map_option fst (UpdateLookup [- 1, 1] [0, 0] [1, - 1] [9, 9] ex_machine) = Some [11, 11]"
    by code_simp
  have c: "map_option (\<lambda>r. (fst r, fst (snd r)))
      (run_updates [([0], [1]), ([0], [- 1])] [- 1, 1] [9, 9] ex_machine) = Some ([- 1, 1], [9, 9])"
    by code_simp
  from update_lookup_repeated_site [OF ex_machine_ok ex_legal valid lt, THEN conjunct1]
    ex_machine_ok ex_legal valid j c nh
  show ?thesis by simp
qed

end
